theory Spec2Isabelle
  imports Complex_Main "HOL-Library.AList" "HOL-Library.Multiset"
begin

section \<open>Data model (process.py, memory\_manager.py)\<close>

text \<open>
  A \<open>Process\<close> object of process.py. All numeric attributes are Python integers, hence
  \<open>int\<close>; the \<open>state\<close> attribute is a Python string.
\<close>

record Process =
  pid :: int
  arrival_time :: int
  burst_time :: int
  remaining_time :: int
  memory_required :: int
  priority :: int
  start_time :: int
  completion_time :: int
  waiting_time :: int
  turnaround_time :: int
  response_time :: int
  memory_allocated :: bool
  memory_start :: int
  memory_end :: int
  state :: string

text \<open>\<open>Process.__init__\<close>: the constructor with its sentinel values.\<close>

definition Process_init :: "int \<Rightarrow> int \<Rightarrow> int \<Rightarrow> int \<Rightarrow> int \<Rightarrow> Process" where
  "Process_init p arrival burst mem prio =
     \<lparr>pid = p, arrival_time = arrival, burst_time = burst, remaining_time = burst,
      memory_required = mem, priority = prio,
      start_time = - 1, completion_time = 0, waiting_time = 0, turnaround_time = 0,
      response_time = - 1,
      memory_allocated = False, memory_start = - 1, memory_end = - 1,
      state = ''NEW''\<rparr>"

text \<open>
  A \<open>MemoryBlock\<close> object. Python compares blocks by identity (\<open>list.index\<close>, the
  values of the \<open>allocated_blocks\<close> dictionary are references), so every block carries
  its object identity \<open>oid\<close>; the manager hands out fresh identities from \<open>next_oid\<close>.
  The attribute \<open>size\<close> is named \<open>size_b\<close> here.
\<close>

record MemoryBlock =
  oid :: nat
  start :: int
  size_b :: int
  allocated :: bool
  process_id :: "int option"

definition MemoryBlock_init :: "nat \<Rightarrow> int \<Rightarrow> int \<Rightarrow> MemoryBlock" where
  "MemoryBlock_init i st sz =
     \<lparr>oid = i, start = st, size_b = sz, allocated = False, process_id = None\<rparr>"

text \<open>
  The \<open>MemoryManager\<close>. The dictionary \<open>allocated_blocks\<close> maps a pid to (the identity
  of) its block; it is an association list in insertion order, as a Python dict is.
\<close>

record MemoryManager =
  total_memory :: int
  strategy :: string
  memory_blocks :: "MemoryBlock list"
  allocated_blocks :: "(int \<times> nat) list"
  next_oid :: nat

definition MemoryManager_init :: "int \<Rightarrow> string \<Rightarrow> MemoryManager" where
  "MemoryManager_init tm strat =
     \<lparr>total_memory = tm, strategy = strat,
      memory_blocks = [MemoryBlock_init 0 0 tm],
      allocated_blocks = [], next_oid = 1\<rparr>"

section \<open>Memory allocator (memory\_manager.py)\<close>

subsection \<open>Search strategies\<close>

fun first_fit_loop :: "MemoryBlock list \<Rightarrow> int \<Rightarrow> MemoryBlock option" where
  "first_fit_loop [] sz = None"
| "first_fit_loop (b # bs) sz =
     (if \<not> allocated b \<and> size_b b \<ge> sz then Some b else first_fit_loop bs sz)"

definition first_fit :: "MemoryManager \<Rightarrow> int \<Rightarrow> MemoryBlock option" where
  "first_fit mm sz = first_fit_loop (memory_blocks mm) sz"

text \<open>
  \<open>_best_fit\<close>: \<open>min_size_diff\<close> starts as \<open>float('inf')\<close>, modelled by \<open>None\<close>
  (every integer is smaller than it).
\<close>

fun best_fit_loop ::
  "MemoryBlock list \<Rightarrow> int \<Rightarrow> MemoryBlock option \<Rightarrow> int option \<Rightarrow> MemoryBlock option" where
  "best_fit_loop [] sz best_block min_size_diff = best_block"
| "best_fit_loop (b # bs) sz best_block min_size_diff =
     (if \<not> allocated b \<and> size_b b \<ge> sz then
        (let size_diff = size_b b - sz in
         if (case min_size_diff of None \<Rightarrow> True | Some m \<Rightarrow> size_diff < m)
         then best_fit_loop bs sz (Some b) (Some size_diff)
         else best_fit_loop bs sz best_block min_size_diff)
      else best_fit_loop bs sz best_block min_size_diff)"

definition best_fit :: "MemoryManager \<Rightarrow> int \<Rightarrow> MemoryBlock option" where
  "best_fit mm sz = best_fit_loop (memory_blocks mm) sz None None"

fun worst_fit_loop ::
  "MemoryBlock list \<Rightarrow> int \<Rightarrow> MemoryBlock option \<Rightarrow> int \<Rightarrow> MemoryBlock option" where
  "worst_fit_loop [] sz worst_block max_size = worst_block"
| "worst_fit_loop (b # bs) sz worst_block max_size =
     (if \<not> allocated b \<and> size_b b \<ge> sz then
        (if size_b b > max_size
         then worst_fit_loop bs sz (Some b) (size_b b)
         else worst_fit_loop bs sz worst_block max_size)
      else worst_fit_loop bs sz worst_block max_size)"

definition worst_fit :: "MemoryManager \<Rightarrow> int \<Rightarrow> MemoryBlock option" where
  "worst_fit mm sz = worst_fit_loop (memory_blocks mm) sz None (- 1)"

subsection \<open>allocate\<close>

text \<open>
  \<open>list.index\<close> by object identity. The block searched for always comes from the list
  itself, so the \<open>ValueError\<close> of a missing element cannot occur; the model returns the
  length of the list there.
\<close>

fun block_index :: "MemoryBlock list \<Rightarrow> nat \<Rightarrow> nat" where
  "block_index [] i = 0"
| "block_index (b # bs) i = (if oid b = i then 0 else Suc (block_index bs i))"

text \<open>\<open>list.insert(k, x)\<close> for \<open>0 \<le> k\<close>.\<close>

definition list_insert :: "'a list \<Rightarrow> nat \<Rightarrow> 'a \<Rightarrow> 'a list" where
  "list_insert xs k x = take k xs @ x # drop k xs"

text \<open>Attribute assignment through a reference: the object with identity \<open>i\<close> changes.\<close>

definition set_block :: "nat \<Rightarrow> (MemoryBlock \<Rightarrow> MemoryBlock) \<Rightarrow> MemoryBlock list \<Rightarrow> MemoryBlock list" where
  "set_block i f bs = map (\<lambda>b. if oid b = i then f b else b) bs"

definition allocate :: "MemoryManager \<Rightarrow> Process \<Rightarrow> bool \<times> MemoryManager \<times> Process" where
  "allocate mm process =
     (let size_needed = memory_required process;
          suitable_block =
            (if strategy mm = ''First-Fit'' then first_fit mm size_needed
             else if strategy mm = ''Best-Fit'' then best_fit mm size_needed
             else if strategy mm = ''Worst-Fit'' then worst_fit mm size_needed
             else None)
      in case suitable_block of
           None \<Rightarrow> (False, mm, process)
         | Some blk \<Rightarrow>
             (let process' = process\<lparr>memory_allocated := True,
                                     memory_start := start blk,
                                     memory_end := start blk + size_needed - 1\<rparr>;
                  do_split = (size_b blk > size_needed);
                  blocks1 =
                    (if do_split then
                       list_insert (memory_blocks mm)
                         (block_index (memory_blocks mm) (oid blk) + 1)
                         (MemoryBlock_init (next_oid mm) (start blk + size_needed)
                            (size_b blk - size_needed))
                     else memory_blocks mm);
                  blocks2 =
                    set_block (oid blk)
                      (\<lambda>b. b\<lparr>size_b := size_needed, allocated := True,
                              process_id := Some (pid process)\<rparr>)
                      blocks1
              in (True,
                  mm\<lparr>memory_blocks := blocks2,
                     allocated_blocks :=
                       AList.update (pid process) (oid blk) (allocated_blocks mm),
                     next_oid := (if do_split then Suc (next_oid mm) else next_oid mm)\<rparr>,
                  process')))"

subsection \<open>deallocate and merging\<close>

text \<open>\<open>list.pop(k)\<close> for an index in range, keeping only the list.\<close>

definition list_pop :: "'a list \<Rightarrow> nat \<Rightarrow> 'a list" where
  "list_pop xs k = take k xs @ drop (Suc k) xs"

function merge_loop :: "nat \<Rightarrow> MemoryBlock list \<Rightarrow> MemoryBlock list" where
  "merge_loop i bs =
     (if i + 1 < length bs then
        (let current = bs ! i; next_block = bs ! (i + 1) in
         if \<not> allocated current \<and> \<not> allocated next_block then
           merge_loop i
             (list_pop (bs[i := current\<lparr>size_b := size_b current + size_b next_block\<rparr>]) (i + 1))
         else merge_loop (i + 1) bs)
      else bs)"
  by pat_completeness auto
termination
  by (relation "measure (\<lambda>(i, bs). length bs - i)") (auto simp: list_pop_def)

declare merge_loop.simps [simp del]

definition merge_free_blocks :: "MemoryManager \<Rightarrow> MemoryManager" where
  "merge_free_blocks mm = mm\<lparr>memory_blocks := merge_loop 0 (memory_blocks mm)\<rparr>"

definition deallocate :: "MemoryManager \<Rightarrow> Process \<Rightarrow> bool \<times> MemoryManager \<times> Process" where
  "deallocate mm process =
     (case map_of (allocated_blocks mm) (pid process) of
        None \<Rightarrow> (False, mm, process)
      | Some i \<Rightarrow>
          (let mm1 = mm\<lparr>memory_blocks :=
                         set_block i (\<lambda>b. b\<lparr>allocated := False, process_id := None\<rparr>)
                           (memory_blocks mm),
                       allocated_blocks := AList.delete (pid process) (allocated_blocks mm)\<rparr>;
               mm2 = merge_free_blocks mm1
           in (True, mm2, process\<lparr>memory_allocated := False\<rparr>)))"

text \<open>A sequence of calls on the allocator, from the initial state.\<close>

datatype mem_op = Allocate Process | Deallocate Process

fun run_op :: "MemoryManager \<Rightarrow> mem_op \<Rightarrow> MemoryManager" where
  "run_op mm (Allocate p) = fst (snd (allocate mm p))"
| "run_op mm (Deallocate p) = fst (snd (deallocate mm p))"

definition run_ops :: "MemoryManager \<Rightarrow> mem_op list \<Rightarrow> MemoryManager" where
  "run_ops mm ops = foldl run_op mm ops"

text \<open>The precondition of \<open>allocate\<close>: the request is positive.\<close>

fun valid_op :: "mem_op \<Rightarrow> bool" where
  "valid_op (Allocate p) = (memory_required p > 0)"
| "valid_op (Deallocate p) = True"

subsection \<open>get\_fragmentation\<close>

text \<open>
  Python's \<open>/\<close> on two integers is float division and raises \<open>ZeroDivisionError\<close> on a
  zero divisor; \<open>max\<close> of an empty sequence raises \<open>ValueError\<close>. Both are branches of
  the model. The float result is modelled by the exact rational it rounds.
\<close>

datatype py_error = ZeroDivisionError | ValueError

definition py_max :: "int list \<Rightarrow> py_error + int" where
  "py_max xs = (case xs of [] \<Rightarrow> Inl ValueError | x # r \<Rightarrow> Inr (fold max r x))"

definition py_truediv :: "int \<Rightarrow> int \<Rightarrow> py_error + rat" where
  "py_truediv a b = (if b = 0 then Inl ZeroDivisionError else Inr (of_int a / of_int b))"

definition get_fragmentation :: "MemoryManager \<Rightarrow> py_error + rat" where
  "get_fragmentation mm =
     (let free_blocks = filter (\<lambda>b. \<not> allocated b) (memory_blocks mm) in
      if free_blocks = [] then Inr 0
      else
        (let total_free = sum_list (map size_b free_blocks) in
         case (if free_blocks \<noteq> [] then py_max (map size_b free_blocks) else Inr 0) of
           Inl e \<Rightarrow> Inl e
         | Inr largest_free \<Rightarrow>
             if total_free = 0 then Inr 0
             else (case py_truediv (total_free - largest_free) total_free of
                     Inl e \<Rightarrow> Inl e
                   | Inr q \<Rightarrow> Inr (q * 100))))"

section \<open>CPU scheduler (scheduler.py)\<close>

text \<open>
  The ready queue is one Python list. Under FCFS and RR its elements are \<open>Process\<close>
  objects (\<open>Proc\<close>); under SJF and Priority they are the tuples
  \<open>(key, arrival_time, process)\<close> pushed by \<open>heapq.heappush\<close> (\<open>Tup\<close>). The algorithm
  is fixed at construction, so a queue never mixes the two kinds.
\<close>

datatype rq_item = Proc Process | Tup int int Process

fun item_process :: "rq_item \<Rightarrow> Process" where
  "item_process (Proc p) = p"
| "item_process (Tup k a p) = p"

text \<open>
  The scheduler object. An entry \<open>{'pid', 'start', 'end'}\<close> of the Gantt chart is the
  triple \<open>(pid, start, end)\<close>.
\<close>

record Scheduler =
  algorithm :: string
  time_quantum :: int
  ready_queue :: "rq_item list"
  current_time :: int
  completed_processes :: "Process list"
  gantt_chart :: "(int \<times> int \<times> int) list"

definition Scheduler_init :: "string \<Rightarrow> int \<Rightarrow> Scheduler" where
  "Scheduler_init alg tq =
     \<lparr>algorithm = alg, time_quantum = tq, ready_queue = [], current_time = 0,
      completed_processes = [], gantt_chart = []\<rparr>"

subsection \<open>The heap of the standard library\<close>

text \<open>
  \<open>heapq\<close> is not part of the repository; \<open>heappush\<close>, \<open>heappop\<close>, \<open>_siftdown\<close> and
  \<open>_siftup\<close> are transcribed from CPython's \<open>Lib/heapq.py\<close>, which compares elements
  with \<open><\<close> only.

  \<open>lt_item\<close> is that comparison. Python compares tuples lexicographically: it looks for
  the first position where the two tuples differ and compares there. The third component
  is a \<open>Process\<close>, compared by \<open>Process.__lt__\<close>, that is by \<open>priority\<close> (two equal
  processes have equal priorities, so identity needs no separate case). A comparison of a
  tuple with a bare process cannot occur in a queue of one kind.
\<close>

fun lt_item :: "rq_item \<Rightarrow> rq_item \<Rightarrow> bool" where
  "lt_item (Tup k1 a1 p1) (Tup k2 a2 p2) =
     (if k1 \<noteq> k2 then k1 < k2
      else if a1 \<noteq> a2 then a1 < a2
      else priority p1 < priority p2)"
| "lt_item (Proc p1) (Proc p2) = (priority p1 < priority p2)"
| "lt_item _ _ = False"

text \<open>
  \<open>_siftdown(heap, startpos, pos)\<close>: the while loop moves the hole at \<open>pos\<close> up while
  \<open>newitem\<close> is smaller than the parent; the new item is written after the loop.
\<close>

function siftdown_loop :: "rq_item list \<Rightarrow> nat \<Rightarrow> nat \<Rightarrow> rq_item \<Rightarrow> rq_item list \<times> nat" where
  "siftdown_loop heap startpos pos newitem =
     (if pos > startpos then
        (let parentpos = (pos - 1) div 2;
             parent = heap ! parentpos
         in if lt_item newitem parent
            then siftdown_loop (heap[pos := parent]) startpos parentpos newitem
            else (heap, pos))
      else (heap, pos))"
  by pat_completeness auto
termination
  by (relation "measure (\<lambda>(heap, startpos, pos, newitem). pos)") auto

declare siftdown_loop.simps [simp del]

definition siftdown :: "rq_item list \<Rightarrow> nat \<Rightarrow> nat \<Rightarrow> rq_item list" where
  "siftdown heap startpos pos =
     (let newitem = heap ! pos in
      case siftdown_loop heap startpos pos newitem of
        (heap1, pos1) \<Rightarrow> heap1[pos1 := newitem])"

text \<open>
  \<open>_siftup(heap, pos)\<close>: the while loop moves the smaller child up until the hole is at a
  leaf, then the new item is put there and bubbled up by \<open>_siftdown\<close>.
\<close>

function siftup_loop :: "rq_item list \<Rightarrow> nat \<Rightarrow> nat \<Rightarrow> nat \<Rightarrow> rq_item list \<times> nat" where
  "siftup_loop heap endpos pos childpos =
     (if childpos < endpos then
        (let rightpos = childpos + 1;
             childpos1 = (if rightpos < endpos \<and> \<not> lt_item (heap ! childpos) (heap ! rightpos)
                          then rightpos else childpos)
         in siftup_loop (heap[pos := heap ! childpos1]) endpos childpos1 (2 * childpos1 + 1))
      else (heap, pos))"
  by pat_completeness auto
termination
  by (relation "measure (\<lambda>(heap, endpos, pos, childpos). endpos - childpos)") auto

declare siftup_loop.simps [simp del]

definition siftup :: "rq_item list \<Rightarrow> nat \<Rightarrow> rq_item list" where
  "siftup heap pos =
     (let endpos = length heap;
          startpos = pos;
          newitem = heap ! pos
      in case siftup_loop heap endpos pos (2 * pos + 1) of
           (heap1, pos1) \<Rightarrow> siftdown (heap1[pos1 := newitem]) startpos pos1)"

text \<open>
  \<open>heappush\<close> appends and sifts down from the last index. \<open>heappop\<close> raises
  \<open>IndexError\<close> on an empty heap (\<open>None\<close> here).
\<close>

definition heappush :: "rq_item list \<Rightarrow> rq_item \<Rightarrow> rq_item list" where
  "heappush heap item = siftdown (heap @ [item]) 0 (length (heap @ [item]) - 1)"

definition heappop :: "rq_item list \<Rightarrow> (rq_item \<times> rq_item list) option" where
  "heappop heap =
     (if heap = [] then None
      else (let lastelt = last heap; heap1 = butlast heap in
            if heap1 \<noteq> [] then Some (heap1 ! 0, siftup (heap1[0 := lastelt]) 0)
            else Some (lastelt, heap1)))"

subsection \<open>Scheduler operations\<close>

definition add_process :: "Scheduler \<Rightarrow> Process \<Rightarrow> Scheduler" where
  "add_process s process =
     (let process1 = process\<lparr>state := ''READY''\<rparr> in
      if algorithm s = ''FCFS'' then
        s\<lparr>ready_queue := ready_queue s @ [Proc process1]\<rparr>
      else if algorithm s = ''SJF'' then
        s\<lparr>ready_queue :=
            heappush (ready_queue s)
              (Tup (remaining_time process1) (arrival_time process1) process1)\<rparr>
      else if algorithm s = ''Priority'' then
        s\<lparr>ready_queue :=
            heappush (ready_queue s)
              (Tup (priority process1) (arrival_time process1) process1)\<rparr>
      else if algorithm s = ''RR'' then
        s\<lparr>ready_queue := ready_queue s @ [Proc process1]\<rparr>
      else s)"

text \<open>
  \<open>get_next_process\<close> returns \<open>None\<close> on an empty queue; otherwise the process of the
  popped heap entry (\<open>heappop(...)[2]\<close>) or the first element (\<open>pop(0)\<close>).
\<close>

definition get_next_process :: "Scheduler \<Rightarrow> Process option \<times> Scheduler" where
  "get_next_process s =
     (if ready_queue s = [] then (None, s)
      else if algorithm s \<in> {''SJF'', ''Priority''} then
        (case heappop (ready_queue s) of
           None \<Rightarrow> (None, s)
         | Some (item, heap1) \<Rightarrow> (Some (item_process item), s\<lparr>ready_queue := heap1\<rparr>))
      else (Some (item_process (hd (ready_queue s))), s\<lparr>ready_queue := tl (ready_queue s)\<rparr>))"

text \<open>
  \<open>execute\<close> mutates the process and the scheduler; the model returns the completion
  flag, the new scheduler and the new process.
\<close>

definition execute :: "Scheduler \<Rightarrow> Process \<Rightarrow> int \<Rightarrow> bool \<times> Scheduler \<times> Process" where
  "execute s process time_slice =
     (let p1 = process\<lparr>state := ''RUNNING''\<rparr>;
          p2 = (if start_time p1 = - 1
                then p1\<lparr>start_time := current_time s,
                        response_time := current_time s - arrival_time p1\<rparr>
                else p1);
          execution_time = min time_slice (remaining_time p2);
          p3 = p2\<lparr>remaining_time := remaining_time p2 - execution_time\<rparr>;
          s1 = s\<lparr>current_time := current_time s + execution_time\<rparr>;
          s2 = s1\<lparr>gantt_chart :=
                    gantt_chart s1 @ [(pid p3, current_time s1 - execution_time, current_time s1)]\<rparr>
      in if remaining_time p3 = 0 then
           (let p4 = p3\<lparr>state := ''TERMINATED''\<rparr>;
                p5 = p4\<lparr>completion_time := current_time s2\<rparr>;
                p6 = p5\<lparr>turnaround_time := completion_time p5 - arrival_time p5\<rparr>;
                p7 = p6\<lparr>waiting_time := turnaround_time p6 - burst_time p6\<rparr>
            in (True, s2\<lparr>completed_processes := completed_processes s2 @ [p7]\<rparr>, p7))
         else (False, s2, p3))"

subsection \<open>schedule\<close>

text \<open>
  The inner while loop of \<open>schedule\<close>: every process of the sorted list that has arrived
  is added to the ready queue.
\<close>

function admit :: "Process list \<Rightarrow> nat \<Rightarrow> Scheduler \<Rightarrow> nat \<times> Scheduler" where
  "admit all_processes process_index s =
     (if process_index < length all_processes
         \<and> arrival_time (all_processes ! process_index) \<le> current_time s
      then admit all_processes (process_index + 1)
             (add_process s (all_processes ! process_index))
      else (process_index, s))"
  by pat_completeness auto
termination
  by (relation "measure (\<lambda>(all_processes, process_index, s). length all_processes - process_index)")
    auto

declare admit.simps [simp del]

text \<open>
  The second half of the loop body: the next process is taken and executed, for one
  quantum under RR (and added back when it has not finished), to completion otherwise.
\<close>

definition dispatch :: "Scheduler \<Rightarrow> Scheduler" where
  "dispatch s1 =
     (case get_next_process s1 of
        (None, s2) \<Rightarrow> s2
      | (Some current_process, s2) \<Rightarrow>
          if algorithm s2 = ''RR'' then
            (case execute s2 current_process (time_quantum s2) of
               (completed, s3, p) \<Rightarrow> if \<not> completed then add_process s3 p else s3)
          else
            (case execute s2 current_process (remaining_time current_process) of
               (completed, s3, p) \<Rightarrow> s3))"

text \<open>
  One iteration of the outer loop: admission, then either the jump to the next arrival
  (the \<open>continue\<close> branch) or a dispatch.
\<close>

definition schedule_body :: "Process list \<Rightarrow> nat \<Rightarrow> Scheduler \<Rightarrow> nat \<times> Scheduler" where
  "schedule_body all_processes process_index s =
     (case admit all_processes process_index s of
        (idx1, s1) \<Rightarrow>
          if ready_queue s1 = [] then
            (idx1,
             if idx1 < length all_processes
             then s1\<lparr>current_time := arrival_time (all_processes ! idx1)\<rparr>
             else s1)
          else (idx1, dispatch s1))"

text \<open>
  The outer while loop. It need not terminate (a quantum of 0 under RR never makes
  progress), so it is a partial function: \<open>None\<close> is the run that never returns.
\<close>

partial_function (option) schedule_loop :: "Process list \<Rightarrow> nat \<Rightarrow> Scheduler \<Rightarrow> Scheduler option" where
  "schedule_loop all_processes process_index s =
     (if process_index < length all_processes \<or> ready_queue s \<noteq> [] then
        (case schedule_body all_processes process_index s of
           (idx1, s1) \<Rightarrow> schedule_loop all_processes idx1 s1)
      else Some s)"

declare schedule_loop.simps [code]

text \<open>
  \<open>schedule\<close> sorts by arrival time (\<open>sorted\<close> is stable, as \<open>sort_key\<close> is) and
  returns the list of completed processes, here together with the final scheduler.
\<close>

definition schedule :: "Scheduler \<Rightarrow> Process list \<Rightarrow> (Process list \<times> Scheduler) option" where
  "schedule s processes =
     (case schedule_loop (sort_key arrival_time processes) 0 s of
        None \<Rightarrow> None
      | Some s1 \<Rightarrow> Some (completed_processes s1, s1))"

section \<open>Properties of the allocator state\<close>

text \<open>
  The block list is a chain from address \<open>a\<close> to address \<open>e\<close>: every block starts where
  the previous one ends. \<open>merge_run\<close> is the list-recursive reading of the merge loop,
  \<open>frag_formula\<close> and \<open>fragmentation_spec\<close> state the fragmentation formula of the
  specification.
\<close>

fun chain :: "int \<Rightarrow> MemoryBlock list \<Rightarrow> int \<Rightarrow> bool" where
  "chain a [] e = (a = e)"
| "chain a (b # bs) e = (start b = a \<and> chain (a + size_b b) bs e)"

fun merge_run :: "MemoryBlock list \<Rightarrow> MemoryBlock list" where
  "merge_run (a # b # bs) =
     (if \<not> allocated a \<and> \<not> allocated b
      then merge_run (a\<lparr>size_b := size_b a + size_b b\<rparr> # bs)
      else a # merge_run (b # bs))"
| "merge_run bs = bs"

fun no_adjacent_free :: "MemoryBlock list \<Rightarrow> bool" where
  "no_adjacent_free (a # b # bs) = ((allocated a \<or> allocated b) \<and> no_adjacent_free (b # bs))"
| "no_adjacent_free bs = True"

definition alloc_block :: "MemoryBlock \<Rightarrow> int \<Rightarrow> int \<Rightarrow> MemoryBlock" where
  "alloc_block blk sz p = blk\<lparr>size_b := sz, allocated := True, process_id := Some p\<rparr>"

definition wf_core :: "int \<Rightarrow> nat \<Rightarrow> MemoryBlock list \<Rightarrow> bool" where
  "wf_core tm n bs =
     (chain 0 bs tm \<and> (\<forall>b \<in> set bs. 0 < size_b b) \<and> distinct (map oid bs)
      \<and> (\<forall>b \<in> set bs. oid b < n))"

definition wf_blocks :: "int \<Rightarrow> nat \<Rightarrow> MemoryBlock list \<Rightarrow> bool" where
  "wf_blocks tm n bs = (wf_core tm n bs \<and> no_adjacent_free bs)"

definition wf_mm :: "MemoryManager \<Rightarrow> bool" where
  "wf_mm mm = wf_blocks (total_memory mm) (next_oid mm) (memory_blocks mm)"

fun contiguous :: "MemoryBlock list \<Rightarrow> bool" where
  "contiguous (a # b # bs) = (start b = start a + size_b a \<and> contiguous (b # bs))"
| "contiguous bs = True"

definition block_range :: "MemoryBlock \<Rightarrow> int set" where
  "block_range b = {start b ..< start b + size_b b}"

definition non_overlapping :: "MemoryBlock list \<Rightarrow> bool" where
  "non_overlapping bs = sorted_wrt (\<lambda>x y. block_range x \<inter> block_range y = {}) bs"

definition sorted_by_start :: "MemoryBlock list \<Rightarrow> bool" where
  "sorted_by_start bs = sorted_wrt (<) (map start bs)"

definition ops_example :: "mem_op list" where
  "ops_example =
     [Allocate (Process_init 1 0 8 100 2), Allocate (Process_init 2 1 4 200 1),
      Allocate (Process_init 3 2 9 150 3), Deallocate (Process_init 2 1 4 200 1),
      Deallocate (Process_init 1 0 8 100 2)]"

definition frag_formula :: "int list \<Rightarrow> rat" where
  "frag_formula fs =
     (let total_free = sum_list fs
      in if fs = [] \<or> total_free = 0 then 0
         else of_int (total_free - Max (set fs)) / of_int total_free * 100)"

definition fragmentation_spec :: "MemoryManager \<Rightarrow> rat" where
  "fragmentation_spec mm =
     frag_formula (map size_b (filter (\<lambda>b. \<not> allocated b) (memory_blocks mm)))"

text \<open>Example states: a 100 MB manager after one allocation of 30 MB.\<close>

definition mm30 :: MemoryManager where
  "mm30 = fst (snd (allocate (MemoryManager_init 100 ''First-Fit'') (Process_init 1 0 5 30 0)))"

definition p30 :: Process where
  "p30 = snd (snd (allocate (MemoryManager_init 100 ''First-Fit'') (Process_init 1 0 5 30 0)))"

text \<open>Three blocks of 100 MB fill a 300 MB memory; the outer two are then freed.\<close>

definition ops_run3 :: "mem_op list" where
  "ops_run3 =
     [Allocate (Process_init 1 0 8 100 2), Allocate (Process_init 2 1 4 100 1),
      Allocate (Process_init 3 2 9 100 3), Deallocate (Process_init 1 0 8 100 2),
      Deallocate (Process_init 3 2 9 100 3)]"

section \<open>Properties of the scheduler state\<close>

text \<open>
  The accessors of the scheduler.
\<close>

definition get_gantt_chart :: "Scheduler \<Rightarrow> (int \<times> int \<times> int) list" where
  "get_gantt_chart s = gantt_chart s"

definition get_total_time :: "Scheduler \<Rightarrow> int" where
  "get_total_time s = current_time s"

text \<open>
  The metric equations of the specification, the invariant of the scheduling loop built
  from them, and the measure that decreases with every iteration of the loop when the
  configuration is valid. \<open>rr_stuck\<close> describes the states from which RR with a quantum of 0 or less
  never returns.
\<close>

definition response_ok :: "Process \<Rightarrow> bool" where
  "response_ok p = (response_time p = start_time p - arrival_time p)"

definition fresh_or_ok :: "Process \<Rightarrow> bool" where
  "fresh_or_ok p = (start_time p = - 1 \<or> response_ok p)"

definition metrics_ok :: "Process \<Rightarrow> bool" where
  "metrics_ok p = (turnaround_time p = waiting_time p + burst_time p \<and> response_ok p)"

definition sched_inv :: "Scheduler \<Rightarrow> bool" where
  "sched_inv s = (list_all (\<lambda>x. fresh_or_ok (item_process x)) (ready_queue s)
                 \<and> list_all metrics_ok (completed_processes s))"

definition work_item :: "rq_item \<Rightarrow> nat" where
  "work_item x = Suc (nat (remaining_time (item_process x)))"

definition queue_work :: "Scheduler \<Rightarrow> nat" where
  "queue_work s = (\<Sum>x \<in># mset (ready_queue s). work_item x)"

definition pending_work :: "Process list \<Rightarrow> nat \<Rightarrow> nat" where
  "pending_work all_processes idx =
     sum_list (map (\<lambda>p. Suc (Suc (nat (remaining_time p)))) (drop idx all_processes))"



text \<open>
  The heap order of \<open>heapq\<close>: no element is smaller than its parent, the parent of index
  \<open>i\<close> being index \<open>(i - 1) div 2\<close>. \<open>le_item x y\<close> is Python's \<open>not y < x\<close>.
  \<open>entry_le\<close> spells out the order of two queue entries \<open>(key, arrival_time, process)\<close>:
  the key first, then the arrival time, then the priority of the process.
\<close>

definition le_item :: "rq_item \<Rightarrow> rq_item \<Rightarrow> bool" where
  "le_item x y = (\<not> lt_item y x)"

fun is_tup :: "rq_item \<Rightarrow> bool" where
  "is_tup (Tup k a p) = True"
| "is_tup (Proc p) = False"

definition heap_ordered :: "rq_item list \<Rightarrow> bool" where
  "heap_ordered h = list_all (\<lambda>i. le_item (h ! ((i - 1) div 2)) (h ! i)) [1 ..< length h]"

definition tup_heap :: "rq_item list \<Rightarrow> bool" where
  "tup_heap h = (list_all is_tup h \<and> heap_ordered h)"

fun entry_le :: "rq_item \<Rightarrow> rq_item \<Rightarrow> bool" where
  "entry_le (Tup k a p) (Tup k1 a1 p1) =
     (k < k1 \<or> (k = k1 \<and> (a < a1 \<or> (a = a1 \<and> priority p \<le> priority p1))))"
| "entry_le (Tup k a p) (Proc p1) = False"
| "entry_le (Proc p) y = False"

text \<open>
  What \<open>add_process\<close> stores: under SJF the key of an entry is the remaining time of its
  process, under Priority its priority, and the second component is its arrival time.
  \<open>ready_heap\<close> is the state of the ready queue under SJF and Priority: a heap of such
  entries. \<open>dispatch_le alg p q\<close> says that \<open>p\<close> is not after \<open>q\<close> in the dispatch
  order: primary key first, then arrival time, then priority.
\<close>

definition primary_key :: "string \<Rightarrow> Process \<Rightarrow> int" where
  "primary_key alg p = (if alg = ''SJF'' then remaining_time p else priority p)"

fun keyed_entry :: "string \<Rightarrow> rq_item \<Rightarrow> bool" where
  "keyed_entry alg (Tup k a p) = (k = primary_key alg p \<and> a = arrival_time p)"
| "keyed_entry alg (Proc p) = False"

definition ready_heap :: "Scheduler \<Rightarrow> bool" where
  "ready_heap s =
     (tup_heap (ready_queue s) \<and> list_all (keyed_entry (algorithm s)) (ready_queue s))"

definition dispatch_le :: "string \<Rightarrow> Process \<Rightarrow> Process \<Rightarrow> bool" where
  "dispatch_le alg p q =
     (primary_key alg p < primary_key alg q
      \<or> (primary_key alg p = primary_key alg q
          \<and> (arrival_time p < arrival_time q
              \<or> (arrival_time p = arrival_time q \<and> priority p \<le> priority q))))"

text \<open>Example process lists and scheduler states.\<close>

definition procs_rr :: "Process list" where
  "procs_rr = [Process_init 1 0 4 10 0, Process_init 2 1 2 10 0]"

definition procs3 :: "Process list" where
  "procs3 = [Process_init 1 0 4 10 0, Process_init 2 0 4 10 0, Process_init 3 0 4 10 0]"

definition metric_row :: "Process \<Rightarrow> int \<times> int \<times> int \<times> int \<times> int \<times> int" where
  "metric_row p =
     (pid p, start_time p, completion_time p, turnaround_time p, waiting_time p, response_time p)"

definition s_rr0 :: Scheduler where
  "s_rr0 = add_process (Scheduler_init ''RR'' 2) (Process_init 1 0 4 10 0)"

definition s_sjf :: Scheduler where
  "s_sjf =
     add_process
       (add_process
          (add_process (Scheduler_init ''SJF'' 2) (Process_init 1 0 5 10 0))
          (Process_init 2 1 3 10 0))
       (Process_init 3 2 3 10 0)"

definition procs_tie :: "Process list" where
  "procs_tie = [Process_init 1 0 5 10 2, Process_init 2 0 5 10 1]"

definition procs_equal :: "Process list" where
  "procs_equal =
     [Process_init 1 0 5 10 0, Process_init 2 0 5 10 0, Process_init 3 0 5 10 0,
      Process_init 4 0 5 10 0]"

definition s_prio :: Scheduler where
  "s_prio =
     add_process
       (add_process
          (add_process (Scheduler_init ''Priority'' 2) (Process_init 1 0 5 10 2))
          (Process_init 2 1 3 10 1))
       (Process_init 3 2 4 10 1)"

section \<open>Lemmas about the allocator\<close>

lemma merge_loop_run: "merge_loop i bs = take i bs @ merge_run (drop i bs)"
proof (induction i bs rule: merge_loop.induct)
  case (1 i bs)
  show ?case
  proof (cases "i + 1 < length bs")
    case False
    then have "drop i bs = [] \<or> (\<exists>x. drop i bs = [x])"
      by (cases "drop i bs"; cases "tl (drop i bs)") (auto simp: drop_Suc dest!: arg_cong[where f=length])
    then have "merge_run (drop i bs) = drop i bs" by auto
    with False show ?thesis
      by (subst merge_loop.simps) simp
  next
    case True
    then have d: "drop i bs = bs ! i # bs ! (i + 1) # drop (i + 2) bs"
      by (metis Cons_nth_drop_Suc Suc_eq_plus1 add_2_eq_Suc' add_lessD1)
    show ?thesis
    proof (cases "\<not> allocated (bs ! i) \<and> \<not> allocated (bs ! (i + 1))")
      case nm: False
      have d1: "drop (i + 1) bs = bs ! (i + 1) # drop (i + 2) bs"
        using True by (metis Cons_nth_drop_Suc Suc_eq_plus1 add_2_eq_Suc')
      have "merge_loop i bs = merge_loop (i + 1) bs"
        using True nm by (subst merge_loop.simps) (auto simp add: Let_def)
      also have "\<dots> = take (i + 1) bs @ merge_run (drop (i + 1) bs)"
        using 1(2) True nm by simp
      also have "\<dots> = take i bs @ bs ! i # merge_run (bs ! (i + 1) # drop (i + 2) bs)"
        using True by (simp only: d1) (simp add: take_Suc_conv_app_nth)
      also have "\<dots> = take i bs @ merge_run (drop i bs)"
        using nm by (simp only: d) auto
      finally show ?thesis .
    next
      case m: True
      let ?c = "(bs ! i)\<lparr>size_b := size_b (bs ! i) + size_b (bs ! (i + 1))\<rparr>"
      let ?bs' = "list_pop (bs[i := ?c]) (i + 1)"
      have e: "?bs' = take i bs @ ?c # drop (i + 2) bs"
        using True by (simp add: list_pop_def take_Suc_conv_app_nth upd_conv_take_nth_drop)
      have "merge_loop i bs = merge_loop i ?bs'"
        using True m by (subst merge_loop.simps) (simp add: Let_def)
      also have "\<dots> = take i ?bs' @ merge_run (drop i ?bs')"
        using 1(1) True m by simp
      also have "\<dots> = take i bs @ merge_run (?c # drop (i + 2) bs)"
        unfolding e using True by simp
      also have "\<dots> = take i bs @ merge_run (drop i bs)"
        using m by (simp add: d)
      finally show ?thesis .
    qed
  qed
qed

lemma first_fit_loop_Some:
  "first_fit_loop bs sz = Some blk \<Longrightarrow> blk \<in> set bs \<and> \<not> allocated blk \<and> sz \<le> size_b blk"
  by (induction bs) (auto split: if_splits)

lemma best_fit_loop_Some:
  "best_fit_loop bs sz best md = Some blk \<Longrightarrow>
     best = Some blk \<or> (blk \<in> set bs \<and> \<not> allocated blk \<and> sz \<le> size_b blk)"
  by (induction bs sz best md rule: best_fit_loop.induct) (auto simp: Let_def split: if_splits)

lemma worst_fit_loop_Some:
  "worst_fit_loop bs sz worst mx = Some blk \<Longrightarrow>
     worst = Some blk \<or> (blk \<in> set bs \<and> \<not> allocated blk \<and> sz \<le> size_b blk)"
  by (induction bs sz worst mx rule: worst_fit_loop.induct) (auto split: if_splits)

lemma block_index_append:
  "i \<notin> oid ` set pre \<Longrightarrow> block_index (pre @ blk # post) i = length pre + block_index (blk # post) i"
  by (induction pre) auto

lemma set_block_notin: "i \<notin> oid ` set bs \<Longrightarrow> set_block i f bs = bs"
  by (induction bs) (auto simp: set_block_def)

lemma set_block_append: "set_block i f (xs @ ys) = set_block i f xs @ set_block i f ys"
  by (simp add: set_block_def)

lemma set_block_Cons:
  "set_block i f (b # bs) = (if oid b = i then f b else b) # set_block i f bs"
  by (simp add: set_block_def)

lemma distinct_oid_split:
  assumes "distinct (map oid bs)" "blk \<in> set bs"
  shows "\<exists>pre post. bs = pre @ blk # post \<and> oid blk \<notin> oid ` set pre \<and> oid blk \<notin> oid ` set post"
proof -
  from assms(2) obtain pre post where e: "bs = pre @ blk # post"
    by (auto dest: split_list)
  with assms(1) have "oid blk \<notin> oid ` set pre \<and> oid blk \<notin> oid ` set post"
    by auto
  with e show ?thesis by blast
qed

lemma allocate_None:
  "fst (allocate mm p) = False \<Longrightarrow> allocate mm p = (False, mm, p)"
  by (auto simp: allocate_def Let_def split: option.splits if_splits)

lemma allocate_blocks:
  assumes d: "distinct (map oid (memory_blocks mm))"
    and n: "\<forall>b \<in> set (memory_blocks mm). oid b < next_oid mm"
    and a: "fst (allocate mm p)"
  shows "\<exists>pre blk post. memory_blocks mm = pre @ blk # post \<and> \<not> allocated blk
           \<and> memory_required p \<le> size_b blk
           \<and> memory_blocks (fst (snd (allocate mm p))) =
               (if memory_required p < size_b blk
                then pre @ alloc_block blk (memory_required p) (pid p)
                       # MemoryBlock_init (next_oid mm) (start blk + memory_required p)
                           (size_b blk - memory_required p) # post
                else pre @ alloc_block blk (memory_required p) (pid p) # post)
           \<and> next_oid (fst (snd (allocate mm p))) =
               (if memory_required p < size_b blk then Suc (next_oid mm) else next_oid mm)
           \<and> total_memory (fst (snd (allocate mm p))) = total_memory mm"
proof -
  let ?sz = "memory_required p"
  let ?sb = "(if strategy mm = ''First-Fit'' then first_fit mm ?sz
             else if strategy mm = ''Best-Fit'' then best_fit mm ?sz
             else if strategy mm = ''Worst-Fit'' then worst_fit mm ?sz
             else None)"
  from a obtain blk where sb: "?sb = Some blk"
    by (cases ?sb) (auto simp: allocate_def Let_def)
  then have p: "blk \<in> set (memory_blocks mm) \<and> \<not> allocated blk \<and> ?sz \<le> size_b blk"
    using first_fit_loop_Some[of "memory_blocks mm" ?sz blk]
      best_fit_loop_Some[of "memory_blocks mm" ?sz None None blk]
      worst_fit_loop_Some[of "memory_blocks mm" ?sz None "- 1" blk]
    by (auto simp: first_fit_def best_fit_def worst_fit_def split: if_splits)
  with d obtain pre post where e: "memory_blocks mm = pre @ blk # post"
    and o: "oid blk \<notin> oid ` set pre" "oid blk \<notin> oid ` set post"
    using distinct_oid_split by blast
  from p n have lt: "oid blk < next_oid mm" by auto
  have idx: "block_index (pre @ blk # post) (oid blk) = length pre"
    using o by (simp add: block_index_append)
  have "memory_blocks (fst (snd (allocate mm p))) =
               (if ?sz < size_b blk
                then pre @ alloc_block blk ?sz (pid p)
                       # MemoryBlock_init (next_oid mm) (start blk + ?sz) (size_b blk - ?sz) # post
                else pre @ alloc_block blk ?sz (pid p) # post)"
    using sb o lt
    by (simp add: allocate_def Let_def idx list_insert_def e set_block_append set_block_Cons
        set_block_notin alloc_block_def MemoryBlock_init_def)
  moreover have "next_oid (fst (snd (allocate mm p))) =
               (if ?sz < size_b blk then Suc (next_oid mm) else next_oid mm)"
    using sb by (simp add: allocate_def Let_def)
  moreover have "total_memory (fst (snd (allocate mm p))) = total_memory mm"
    using sb by (simp add: allocate_def Let_def)
  ultimately show ?thesis using e p by blast
qed

lemma chain_append:
  "chain a (xs @ ys) e = (\<exists>m. chain a xs m \<and> chain m ys e)"
  by (induction xs arbitrary: a) auto

lemma chain_sum: "chain a bs e \<Longrightarrow> sum_list (map size_b bs) = e - a"
  by (induction bs arbitrary: a) auto

lemma naf_append_Cons:
  "no_adjacent_free (xs @ b # ys) =
     (no_adjacent_free (xs @ [b]) \<and> no_adjacent_free (b # ys))"
  by (induction xs rule: no_adjacent_free.induct) auto

lemma naf_snoc_flag:
  "allocated b = allocated c \<Longrightarrow> no_adjacent_free (xs @ [b]) = no_adjacent_free (xs @ [c])"
  by (induction xs rule: no_adjacent_free.induct) auto

lemma naf_snoc_alloc:
  "no_adjacent_free (xs @ [b]) \<Longrightarrow> allocated c \<Longrightarrow> no_adjacent_free (xs @ [c])"
  by (induction xs rule: no_adjacent_free.induct) auto

lemma naf_Cons_alloc:
  "no_adjacent_free (b # ys) \<Longrightarrow> allocated c \<Longrightarrow> no_adjacent_free (c # ys)"
  by (cases ys) auto

lemma naf_Cons_free:
  "no_adjacent_free (b # ys) \<Longrightarrow> \<not> allocated b \<Longrightarrow> \<not> allocated c \<Longrightarrow> no_adjacent_free (c # ys)"
  by (cases ys) auto

lemma wf_init: "0 < tm \<Longrightarrow> wf_mm (MemoryManager_init tm strat)"
  by (simp add: wf_mm_def wf_blocks_def wf_core_def MemoryManager_init_def MemoryBlock_init_def)

lemma wf_allocate:
  assumes w: "wf_mm mm" and v: "0 < memory_required p"
  shows "wf_mm (fst (snd (allocate mm p)))"
proof (cases "fst (allocate mm p)")
  case False
  then show ?thesis using w by (simp add: allocate_None)
next
  case True
  let ?mm' = "fst (snd (allocate mm p))"
  let ?sz = "memory_required p"
  from w have d: "distinct (map oid (memory_blocks mm))"
    and n: "\<forall>b \<in> set (memory_blocks mm). oid b < next_oid mm"
    by (auto simp: wf_mm_def wf_blocks_def wf_core_def)
  from allocate_blocks[OF d n True] obtain pre blk post where
    e: "memory_blocks mm = pre @ blk # post" and f: "\<not> allocated blk" and s: "?sz \<le> size_b blk"
    and e': "memory_blocks ?mm' =
               (if ?sz < size_b blk
                then pre @ alloc_block blk ?sz (pid p)
                       # MemoryBlock_init (next_oid mm) (start blk + ?sz) (size_b blk - ?sz) # post
                else pre @ alloc_block blk ?sz (pid p) # post)"
    and n': "next_oid ?mm' = (if ?sz < size_b blk then Suc (next_oid mm) else next_oid mm)"
    and t': "total_memory ?mm' = total_memory mm"
    by blast
  let ?a = "alloc_block blk ?sz (pid p)"
  let ?nb = "MemoryBlock_init (next_oid mm) (start blk + ?sz) (size_b blk - ?sz)"
  have c: "chain 0 (memory_blocks ?mm') (total_memory ?mm')"
    using w s unfolding e' t'
    by (auto simp: wf_mm_def wf_blocks_def wf_core_def e chain_append alloc_block_def MemoryBlock_init_def)
  have p: "\<forall>b \<in> set (memory_blocks ?mm'). 0 < size_b b"
    using w v unfolding e'
    by (auto simp: wf_mm_def wf_blocks_def wf_core_def e alloc_block_def MemoryBlock_init_def)
  have o: "\<forall>b \<in> set (memory_blocks ?mm'). oid b < next_oid ?mm'"
    using n unfolding e' n'
    by (auto simp: e alloc_block_def MemoryBlock_init_def less_Suc_eq)
  have dd: "distinct (map oid (memory_blocks ?mm'))"
    using d n unfolding e'
    by (auto simp: e alloc_block_def MemoryBlock_init_def)
  from w have "no_adjacent_free (pre @ blk # post)"
    by (simp add: wf_mm_def wf_blocks_def wf_core_def e)
  then have n1: "no_adjacent_free (pre @ [blk])" and n2: "no_adjacent_free (blk # post)"
    using naf_append_Cons[of pre blk post] by auto
  have aa: "allocated ?a" by (simp add: alloc_block_def)
  have fn: "\<not> allocated ?nb" by (simp add: MemoryBlock_init_def)
  have "no_adjacent_free (pre @ ?a # post)"
    using naf_append_Cons[of pre ?a post] naf_snoc_alloc[OF n1 aa] naf_Cons_alloc[OF n2 aa]
    by simp
  moreover have "no_adjacent_free (pre @ ?a # ?nb # post)"
    using naf_append_Cons[of pre ?a "?nb # post"] naf_snoc_alloc[OF n1 aa]
      naf_Cons_free[OF n2 f fn] aa
    by simp
  ultimately have nn: "no_adjacent_free (memory_blocks ?mm')"
    unfolding e' by simp
  show ?thesis
    using c p o dd nn by (simp add: wf_mm_def wf_blocks_def wf_core_def)
qed

lemma merge_run_hd:
  "\<exists>b' bs'. merge_run (b # bs) = b' # bs' \<and> allocated b' = allocated b \<and> start b' = start b \<and> oid b' = oid b"
proof (induction "b # bs" arbitrary: b bs rule: merge_run.induct)
  case (1 a b bs)
  then show ?case by (auto)
qed auto

lemma merge_run_naf: "no_adjacent_free (merge_run bs)"
proof (induction bs rule: merge_run.induct)
  case (1 a b bs)
  show ?case
  proof (cases "\<not> allocated a \<and> \<not> allocated b")
    case True
    with 1 show ?thesis by simp
  next
    case False
    obtain b' bs' where m: "merge_run (b # bs) = b' # bs'" "allocated b' = allocated b"
      using merge_run_hd by blast
    with False 1(2) show ?thesis by auto
  qed
qed auto

lemma merge_run_chain: "chain a bs e \<Longrightarrow> chain a (merge_run bs) e"
  by (induction bs arbitrary: a rule: merge_run.induct) (auto simp: add.assoc)

lemma merge_run_pos: "\<forall>b \<in> set bs. 0 < size_b b \<Longrightarrow> \<forall>b \<in> set (merge_run bs). 0 < size_b b"
  by (induction bs rule: merge_run.induct) auto

lemma merge_run_oids: "oid ` set (merge_run bs) \<subseteq> oid ` set bs"
  by (induction bs rule: merge_run.induct) auto

lemma merge_run_distinct: "distinct (map oid bs) \<Longrightarrow> distinct (map oid (merge_run bs))"
proof (induction bs rule: merge_run.induct)
  case (1 a b bs)
  show ?case
  proof (cases "\<not> allocated a \<and> \<not> allocated b")
    case True
    with 1 show ?thesis by simp
  next
    case False
    have "oid a \<notin> oid ` set (merge_run (b # bs))"
      using merge_run_oids[of "b # bs"] 1(3) by auto
    with False 1 show ?thesis by auto
  qed
qed auto

lemma wf_blocks_merge: "wf_core tm n bs \<Longrightarrow> wf_blocks tm n (merge_loop 0 bs)"
  using merge_run_oids[of bs]
  by (auto simp: wf_blocks_def wf_core_def merge_loop_run merge_run_chain merge_run_naf
      merge_run_distinct dest: merge_run_pos)

lemma wf_core_set_block_flags:
  "wf_core tm n bs \<Longrightarrow>
   wf_core tm n (set_block i (\<lambda>b. b\<lparr>allocated := False, process_id := None\<rparr>) bs)"
proof -
  let ?f = "\<lambda>b. if oid b = i then b\<lparr>allocated := False, process_id := None\<rparr> else b"
  have c: "chain a (map ?f bs) e = chain a bs e" for a e
    by (induction bs arbitrary: a) auto
  have o: "map oid (map ?f bs) = map oid bs"
    by (induction bs) auto
  assume "wf_core tm n bs"
  then show ?thesis
    unfolding wf_core_def set_block_def c o by auto
qed

lemma wf_deallocate:
  assumes "wf_mm mm"
  shows "wf_mm (fst (snd (deallocate mm p)))"
proof (cases "map_of (allocated_blocks mm) (pid p)")
  case None
  with assms show ?thesis by (simp add: deallocate_def)
next
  case (Some i)
  from assms have "wf_core (total_memory mm) (next_oid mm) (memory_blocks mm)"
    by (simp add: wf_mm_def wf_blocks_def)
  then show ?thesis
    using Some
    by (simp add: deallocate_def Let_def merge_free_blocks_def wf_mm_def
        wf_blocks_merge wf_core_set_block_flags)
qed

lemma deallocate_naf:
  "fst (deallocate mm p) \<Longrightarrow> no_adjacent_free (memory_blocks (fst (snd (deallocate mm p))))"
  by (auto simp: deallocate_def Let_def merge_free_blocks_def merge_loop_run merge_run_naf
      split: option.splits)

lemma wf_run_op: "wf_mm mm \<Longrightarrow> valid_op x \<Longrightarrow> wf_mm (run_op mm x)"
  by (cases x) (auto simp: wf_allocate wf_deallocate)

lemma wf_run_ops: "wf_mm mm \<Longrightarrow> list_all valid_op ops \<Longrightarrow> wf_mm (run_ops mm ops)"
  unfolding run_ops_def
  by (induction ops arbitrary: mm) (auto simp: wf_run_op)

lemma wf_reachable:
  "0 < tm \<Longrightarrow> list_all valid_op ops \<Longrightarrow> wf_mm (run_ops (MemoryManager_init tm strat) ops)"
  by (simp add: wf_init wf_run_ops)

lemma chain_bounds:
  "chain a bs e \<Longrightarrow> \<forall>b \<in> set bs. 0 < size_b b
     \<Longrightarrow> a \<le> e \<and> (\<forall>x \<in> set bs. a \<le> start x \<and> start x + size_b x \<le> e)"
proof (induction bs arbitrary: a)
  case Nil
  then show ?case by simp
next
  case (Cons b bs)
  from Cons.prems Cons.IH[of "a + size_b b"]
  have "a + size_b b \<le> e \<and> (\<forall>x \<in> set bs. a + size_b b \<le> start x \<and> start x + size_b x \<le> e)"
    by simp
  with Cons.prems show ?case by force
qed

lemma chain_adjacent:
  "chain a bs e \<Longrightarrow> \<forall>b \<in> set bs. 0 < size_b b \<Longrightarrow> no_adjacent_free bs
     \<Longrightarrow> x \<in> set bs \<Longrightarrow> y \<in> set bs \<Longrightarrow> start x + size_b x = start y
     \<Longrightarrow> allocated x \<or> allocated y"
proof (induction bs arbitrary: a)
  case Nil
  then show ?case by simp
next
  case (Cons b bs)
  have rest: "\<forall>z \<in> set bs. a + size_b b \<le> start z"
    using chain_bounds[of "a + size_b b" bs e] Cons.prems by simp
  have sb: "start b = a" "0 < size_b b" using Cons.prems by auto
  consider (bb) "x = b" "y = b" | (br) "x = b" "y \<in> set bs" "y \<noteq> b"
    | (rb) "x \<in> set bs" "x \<noteq> b" "y = b" | (rr) "x \<in> set bs" "y \<in> set bs"
    using Cons.prems by auto
  then show ?case
  proof cases
    case bb
    with Cons.prems show ?thesis by simp
  next
    case br
    then obtain r rs where bs: "bs = r # rs" by (cases bs) auto
    have r: "start r = a + size_b b" "0 < size_b r" using Cons.prems bs by auto
    have "\<forall>z \<in> set rs. start r + size_b r \<le> start z"
      using chain_bounds[of "start r + size_b r" rs e] Cons.prems bs by simp
    with r have "\<forall>z \<in> set rs. start z \<noteq> start r" by force
    moreover have "start y = start r" using br Cons.prems sb r by simp
    ultimately have "y = r" using br bs by auto
    with Cons.prems bs br show ?thesis by simp
  next
    case rb
    with rest sb Cons.prems have "a + size_b b \<le> start x" "0 < size_b x" by auto
    with rb sb Cons.prems show ?thesis by simp
  next
    case rr
    have "no_adjacent_free bs" using Cons.prems by (cases bs) auto
    with rr Cons.prems Cons.IH[of "a + size_b b"] show ?thesis by simp
  qed
qed

lemma chain_contiguous: "chain a bs e \<Longrightarrow> contiguous bs"
  by (induction bs arbitrary: a rule: contiguous.induct) auto

lemma chain_sorted:
  "chain a bs e \<Longrightarrow> \<forall>b \<in> set bs. 0 < size_b b \<Longrightarrow> sorted_by_start bs"
proof (induction bs arbitrary: a)
  case Nil
  then show ?case by (simp add: sorted_by_start_def)
next
  case (Cons b bs)
  have "\<forall>z \<in> set bs. a + size_b b \<le> start z"
    using chain_bounds[of "a + size_b b" bs e] Cons.prems by simp
  moreover have "sorted_by_start bs" using Cons.prems Cons.IH[of "a + size_b b"] by simp
  ultimately show ?case using Cons.prems by (force simp: sorted_by_start_def)
qed

lemma chain_non_overlapping:
  "chain a bs e \<Longrightarrow> \<forall>b \<in> set bs. 0 < size_b b \<Longrightarrow> non_overlapping bs"
proof (induction bs arbitrary: a)
  case Nil
  then show ?case by (simp add: non_overlapping_def)
next
  case (Cons b bs)
  have "\<forall>z \<in> set bs. a + size_b b \<le> start z"
    using chain_bounds[of "a + size_b b" bs e] Cons.prems by simp
  moreover have "non_overlapping bs" using Cons.prems Cons.IH[of "a + size_b b"] by simp
  ultimately show ?case using Cons.prems by (force simp: non_overlapping_def block_range_def)
qed

lemma chain_cover:
  "chain a bs e \<Longrightarrow> \<forall>b \<in> set bs. 0 < size_b b \<Longrightarrow> (\<Union>b \<in> set bs. block_range b) = {a ..< e}"
proof (induction bs arbitrary: a)
  case Nil
  then show ?case by simp
next
  case (Cons b bs)
  have le: "a + size_b b \<le> e"
    using chain_bounds[of "a + size_b b" bs e] Cons.prems by simp
  have "(\<Union>b \<in> set bs. block_range b) = {a + size_b b ..< e}"
    using Cons.prems Cons.IH[of "a + size_b b"] by simp
  moreover have "block_range b = {a ..< a + size_b b}"
    using Cons.prems by (simp add: block_range_def)
  moreover have "{a ..< a + size_b b} \<union> {a + size_b b ..< e} = {a ..< e}"
    using le Cons.prems by auto
  ultimately show ?case by simp
qed

lemma total_memory_allocate: "total_memory (fst (snd (allocate mm p))) = total_memory mm"
  by (auto simp: allocate_def Let_def split: option.splits)

lemma total_memory_deallocate: "total_memory (fst (snd (deallocate mm p))) = total_memory mm"
  by (auto simp: deallocate_def Let_def merge_free_blocks_def split: option.splits)

lemma total_memory_run_ops: "total_memory (run_ops mm ops) = total_memory mm"
  unfolding run_ops_def
proof (induction ops arbitrary: mm)
  case Nil
  show ?case by simp
next
  case (Cons x xs)
  have "total_memory (run_op mm x) = total_memory mm"
    by (cases x) (simp_all add: total_memory_allocate total_memory_deallocate)
  with Cons show ?case by simp
qed

lemma run_op_nonpos:
  assumes "tm \<le> 0" "valid_op x"
  shows "run_op (MemoryManager_init tm strat) x = MemoryManager_init tm strat"
proof (cases x)
  case (Allocate p)
  with assms have "0 < memory_required p" by simp
  with assms(1) have "allocate (MemoryManager_init tm strat) p = (False, MemoryManager_init tm strat, p)"
    by (auto simp add: allocate_def first_fit_def best_fit_def worst_fit_def MemoryManager_init_def
        MemoryBlock_init_def Let_def)
  with Allocate show ?thesis by simp
next
  case (Deallocate p)
  then show ?thesis by (simp add: deallocate_def MemoryManager_init_def)
qed

lemma run_ops_nonpos:
  "tm \<le> 0 \<Longrightarrow> list_all valid_op ops
     \<Longrightarrow> run_ops (MemoryManager_init tm strat) ops = MemoryManager_init tm strat"
  unfolding run_ops_def
  by (induction ops) (auto simp: run_op_nonpos)

lemma py_max_Max: "xs \<noteq> [] \<Longrightarrow> py_max xs = Inr (Max (set xs))"
  by (cases xs) (simp_all add: py_max_def Max.set_eq_fold [symmetric])

lemma get_fragmentation_eq: "get_fragmentation mm = Inr (fragmentation_spec mm)"
  by (simp add: get_fragmentation_def fragmentation_spec_def frag_formula_def Let_def
      py_max_Max py_truediv_def)

lemma frag_formula_single: "length fs \<le> 1 \<Longrightarrow> frag_formula fs = 0"
proof -
  assume "length fs \<le> 1"
  then have "fs = [] \<or> (\<exists>x. fs = [x])"
    by (cases fs; cases "tl fs") auto
  then show ?thesis
    by (auto simp: frag_formula_def Let_def)
qed

lemma frag_range_pos:
  fixes fs :: "int list"
  assumes "fs \<noteq> []" "\<forall>x \<in> set fs. 0 < x"
  shows "0 < Max (set fs) \<and> Max (set fs) \<le> sum_list fs"
proof -
  have m: "Max (set fs) \<in> set fs" using assms(1) by (intro Max_in) auto
  then have "0 < Max (set fs)" using assms(2) by blast
  moreover have "Max (set fs) \<le> sum_list fs"
    using m assms(2) by (intro member_le_sum_list) auto
  ultimately show ?thesis by simp
qed

lemma frag_formula_range:
  assumes pos: "\<forall>x \<in> set fs. 0 < x"
  shows "0 \<le> frag_formula fs \<and> frag_formula fs \<le> 100"
proof (cases "fs = [] \<or> sum_list fs = 0")
  case True
  then show ?thesis by (auto simp: frag_formula_def Let_def)
next
  case False
  then have ne: "fs \<noteq> []" by simp
  from frag_range_pos[OF ne pos] have m: "0 < Max (set fs)" "Max (set fs) \<le> sum_list fs"
    by auto
  define q :: rat where "q = of_int (sum_list fs - Max (set fs)) / of_int (sum_list fs)"
  have t: "0 < sum_list fs" using m by linarith
  have q0: "0 \<le> q"
    unfolding q_def using m t by (intro divide_nonneg_pos) auto
  have "(of_int (sum_list fs - Max (set fs)) :: rat) \<le> of_int (sum_list fs)"
    using m by simp
  then have q1: "q \<le> 1"
    unfolding q_def using t by (simp add: divide_le_eq)
  have "frag_formula fs = q * 100"
    using False unfolding q_def frag_formula_def Let_def by simp
  with q0 q1 show ?thesis by simp
qed

subsection \<open>The example states, evaluated\<close>

lemma mm30_p30:
  "mm30 = \<lparr>total_memory = 100, strategy = ''First-Fit'',
           memory_blocks =
             [\<lparr>oid = 0, start = 0, size_b = 30, allocated = True, process_id = Some 1\<rparr>,
              \<lparr>oid = 1, start = 30, size_b = 70, allocated = False, process_id = None\<rparr>],
           allocated_blocks = [(1, 0)], next_oid = 2\<rparr>"
  "p30 = (Process_init 1 0 5 30 0)\<lparr>memory_allocated := True, memory_start := 0, memory_end := 29\<rparr>"
  by (simp_all add: mm30_def p30_def allocate_def MemoryManager_init_def Process_init_def
      first_fit_def MemoryBlock_init_def list_insert_def set_block_def)

lemma ops_example_blocks:
  "memory_blocks (run_ops (MemoryManager_init 1024 ''Best-Fit'') ops_example) =
     [\<lparr>oid = 0, start = 0, size_b = 300, allocated = False, process_id = None\<rparr>,
      \<lparr>oid = 2, start = 300, size_b = 150, allocated = True, process_id = Some 3\<rparr>,
      \<lparr>oid = 3, start = 450, size_b = 574, allocated = False, process_id = None\<rparr>]"
  by code_simp

lemma ops_example_frag:
  "get_fragmentation (run_ops (MemoryManager_init 1024 ''Best-Fit'') ops_example)
     = Inr (15000 / 437)"
  by code_simp

lemma ops_run3_blocks:
  "memory_blocks (run_ops (MemoryManager_init 300 ''First-Fit'') ops_run3) =
     [\<lparr>oid = 0, start = 0, size_b = 100, allocated = False, process_id = None\<rparr>,
      \<lparr>oid = 1, start = 100, size_b = 100, allocated = True, process_id = Some 2\<rparr>,
      \<lparr>oid = 2, start = 200, size_b = 100, allocated = False, process_id = None\<rparr>]"
  by code_simp

lemma ops_run3_dealloc:
  "memory_blocks (fst (snd (deallocate (run_ops (MemoryManager_init 300 ''First-Fit'') ops_run3)
      (Process_init 2 1 4 100 1)))) =
     [\<lparr>oid = 0, start = 0, size_b = 300, allocated = False, process_id = None\<rparr>]"
  by code_simp

section \<open>Lemmas about the scheduler\<close>

lemma mset_update_swap:
  assumes "i < length xs" "j < length xs" "i \<noteq> j"
  shows "mset (xs[i := y, j := x]) = mset (xs[i := x, j := y])"
proof -
  let ?zs = "xs[i := x, j := y]"
  have "mset (?zs[j := ?zs ! i, i := ?zs ! j]) = mset ?zs"
    using assms by (intro mset_swap) auto
  moreover have "?zs[j := ?zs ! i, i := ?zs ! j] = xs[i := y, j := x]"
    using assms by (simp add: list_update_swap)
  ultimately show ?thesis by simp
qed

lemma siftdown_loop_mset:
  "pos < length heap \<Longrightarrow> siftdown_loop heap startpos pos x = (h, p)
     \<Longrightarrow> p < length h \<and> length h = length heap \<and> mset (h[p := x]) = mset (heap[pos := x])"
proof (induction heap startpos pos x arbitrary: h p rule: siftdown_loop.induct)
  case (1 heap startpos pos newitem)
  show ?case
  proof (cases "pos > startpos \<and> lt_item newitem (heap ! ((pos - 1) div 2))")
    case False
    with 1(2,3) show ?thesis
      by (subst (asm) siftdown_loop.simps) (auto simp: Let_def split: if_splits)
  next
    case True
    let ?pp = "(pos - 1) div 2"
    let ?heap = "heap[pos := heap ! ?pp]"
    have pp: "?pp < pos" using True by auto
    from True 1(3) have r: "siftdown_loop ?heap startpos ?pp newitem = (h, p)"
      by (subst (asm) siftdown_loop.simps) (simp add: Let_def)
    have "p < length h \<and> length h = length ?heap \<and> mset (h[p := newitem]) = mset (?heap[?pp := newitem])"
      using 1(1)[OF _ refl refl _ _ r] True pp 1(2) by simp
    moreover have "mset (?heap[?pp := newitem]) = mset (heap[pos := newitem])"
    proof -
      have "mset (heap[pos := heap ! ?pp, ?pp := newitem]) = mset (heap[pos := newitem, ?pp := heap ! ?pp])"
        using pp 1(2) by (intro mset_update_swap) auto
      moreover have "heap[pos := newitem, ?pp := heap ! ?pp] = heap[pos := newitem]"
        using pp 1(2) by (metis list_update_id list_update_swap nat_neq_iff)
      ultimately show ?thesis by simp
    qed
    ultimately show ?thesis by simp
  qed
qed

lemma siftdown_mset:
  assumes "pos < length heap"
  shows "mset (siftdown heap startpos pos) = mset heap"
    and "length (siftdown heap startpos pos) = length heap"
proof -
  obtain h p where r: "siftdown_loop heap startpos pos (heap ! pos) = (h, p)"
    by (cases "siftdown_loop heap startpos pos (heap ! pos)") auto
  from siftdown_loop_mset[OF assms r] r
  show "mset (siftdown heap startpos pos) = mset heap"
    by (simp add: siftdown_def Let_def)
  from siftdown_loop_mset[OF assms r] r
  show "length (siftdown heap startpos pos) = length heap"
    by (simp add: siftdown_def Let_def)
qed

lemma siftup_loop_mset:
  "pos < length heap \<Longrightarrow> pos < childpos \<Longrightarrow> endpos = length heap
     \<Longrightarrow> siftup_loop heap endpos pos childpos = (h, p)
     \<Longrightarrow> p < length h \<and> length h = length heap \<and> mset (h[p := x]) = mset (heap[pos := x])"
proof (induction heap endpos pos childpos arbitrary: h p rule: siftup_loop.induct)
  case (1 heap endpos pos childpos)
  show ?case
  proof (cases "childpos < endpos")
    case False
    with 1(2-) show ?thesis
      by (subst (asm) siftup_loop.simps) auto
  next
    case True
    define c where "c = (if childpos + 1 < endpos \<and> \<not> lt_item (heap ! childpos) (heap ! (childpos + 1))
                          then childpos + 1 else childpos)"
    let ?heap = "heap[pos := heap ! c]"
    have c: "c < endpos" "pos < c" "childpos \<le> c"
      using True 1(3) by (auto simp: c_def)
    from True 1(5) have r: "siftup_loop ?heap endpos c (2 * c + 1) = (h, p)"
      by (subst (asm) siftup_loop.simps) (auto simp: Let_def c_def split: if_splits)
    have "p < length h \<and> length h = length ?heap \<and> mset (h[p := x]) = mset (?heap[c := x])"
      using 1(1)[OF True refl c_def _ _ _ r] c 1(4) by simp
    moreover have "mset (?heap[c := x]) = mset (heap[pos := x])"
    proof -
      have "mset (heap[pos := heap ! c, c := x]) = mset (heap[pos := x, c := heap ! c])"
        using c 1(2,4) by (intro mset_update_swap) auto
      moreover have "heap[pos := x, c := heap ! c] = heap[pos := x]"
        using c by (metis list_update_id list_update_swap nat_neq_iff)
      ultimately show ?thesis by simp
    qed
    ultimately show ?thesis by simp
  qed
qed

lemma siftup_mset:
  assumes "pos < length heap"
  shows "mset (siftup heap pos) = mset heap"
    and "length (siftup heap pos) = length heap"
proof -
  obtain h p where r: "siftup_loop heap (length heap) pos (2 * pos + 1) = (h, p)"
    by (cases "siftup_loop heap (length heap) pos (2 * pos + 1)") auto
  have l: "p < length h \<and> length h = length heap \<and> mset (h[p := heap ! pos]) = mset (heap[pos := heap ! pos])"
    using siftup_loop_mset[OF assms _ refl r, of "heap ! pos"] by simp
  then have pl: "p < length (h[p := heap ! pos])" by simp
  from l r siftdown_mset[OF pl, of pos]
  show "mset (siftup heap pos) = mset heap" "length (siftup heap pos) = length heap"
    by (simp_all add: siftup_def Let_def)
qed

lemma heappush_mset:
  "mset (heappush heap item) = add_mset item (mset heap)"
  "length (heappush heap item) = Suc (length heap)"
  by (simp_all add: heappush_def siftdown_mset)

lemma heappop_mset:
  assumes "heappop heap = Some (x, h)"
  shows "mset heap = add_mset x (mset h)"
proof -
  from assms have ne: "heap \<noteq> []" by (auto simp: heappop_def)
  then have e: "heap = butlast heap @ [last heap]" by simp
  show ?thesis
  proof (cases "butlast heap = []")
    case True
    with assms ne e show ?thesis
      by (auto simp: heappop_def Let_def)
  next
    case False
    let ?h1 = "butlast heap"
    from False have l: "0 < length ?h1" by (simp only: length_greater_0_conv not_False_eq_True)
    from assms ne False have x: "x = ?h1 ! 0" and h: "h = siftup (?h1[0 := last heap]) 0"
      by (auto simp: heappop_def Let_def)
    have "mset h = mset (?h1[0 := last heap])"
      unfolding h using l by (intro siftup_mset) simp
    also have "\<dots> = add_mset (last heap) (mset ?h1 - {#?h1 ! 0#})"
      using l by (simp add: mset_update)
    finally have "add_mset x (mset h) = add_mset (last heap) (mset ?h1)"
      using l x by simp
    also have "\<dots> = mset heap"
      by (subst (2) e) simp
    finally show ?thesis by simp
  qed
qed

lemma add_process_fields [simp]:
  "algorithm (add_process s p) = algorithm s"
  "time_quantum (add_process s p) = time_quantum s"
  "current_time (add_process s p) = current_time s"
  "completed_processes (add_process s p) = completed_processes s"
  "gantt_chart (add_process s p) = gantt_chart s"
  by (simp_all add: add_process_def Let_def)

lemma add_process_queue_mset:
  "mset (ready_queue (add_process s p)) =
     (if algorithm s \<in> {''FCFS'', ''RR''} then add_mset (Proc (p\<lparr>state := ''READY''\<rparr>)) (mset (ready_queue s))
      else if algorithm s = ''SJF'' then
        add_mset (Tup (remaining_time p) (arrival_time p) (p\<lparr>state := ''READY''\<rparr>)) (mset (ready_queue s))
      else if algorithm s = ''Priority'' then
        add_mset (Tup (priority p) (arrival_time p) (p\<lparr>state := ''READY''\<rparr>)) (mset (ready_queue s))
      else mset (ready_queue s))"
  by (auto simp: add_process_def Let_def heappush_mset)

lemma list_all_mset: "list_all Q xs = (\<forall>x \<in># mset xs. Q x)"
  by (simp add: list_all_iff)

lemma sched_inv_add_process:
  "sched_inv s \<Longrightarrow> fresh_or_ok p \<Longrightarrow> sched_inv (add_process s p)"
  unfolding sched_inv_def list_all_mset[of _ "ready_queue _"] add_process_queue_mset
  by (auto simp: fresh_or_ok_def response_ok_def)

lemma get_next_process_Some:
  assumes "ready_queue s \<noteq> []"
  shows "\<exists>x. fst (get_next_process s) = Some (item_process x)
           \<and> mset (ready_queue s) = add_mset x (mset (ready_queue (snd (get_next_process s))))
           \<and> snd (get_next_process s) = s\<lparr>ready_queue := ready_queue (snd (get_next_process s))\<rparr>"
proof (cases "algorithm s \<in> {''SJF'', ''Priority''}")
  case True
  from assms obtain x h where hp: "heappop (ready_queue s) = Some (x, h)"
    by (cases "heappop (ready_queue s)") (auto simp: heappop_def Let_def split: if_splits)
  from heappop_mset[OF hp] hp True assms show ?thesis
    by (auto simp: get_next_process_def)
next
  case False
  from assms obtain x xs where "ready_queue s = x # xs" by (cases "ready_queue s") auto
  with False show ?thesis
    by (auto simp: get_next_process_def)
qed

lemma execute_fields [simp]:
  "algorithm (fst (snd (execute s p t))) = algorithm s"
  "time_quantum (fst (snd (execute s p t))) = time_quantum s"
  "ready_queue (fst (snd (execute s p t))) = ready_queue s"
  by (simp_all add: execute_def Let_def)

lemma execute_metrics:
  assumes "fresh_or_ok p"
  shows "response_ok (snd (snd (execute s p t)))"
    and "list_all metrics_ok (completed_processes s)
           \<Longrightarrow> list_all metrics_ok (completed_processes (fst (snd (execute s p t))))"
  using assms
  by (auto simp: execute_def Let_def fresh_or_ok_def response_ok_def metrics_ok_def)

lemma dispatch_Some:
  "get_next_process s = (Some cp, s2) \<Longrightarrow>
   dispatch s =
     (if algorithm s2 = ''RR'' then
        (if \<not> fst (execute s2 cp (time_quantum s2))
         then add_process (fst (snd (execute s2 cp (time_quantum s2))))
                (snd (snd (execute s2 cp (time_quantum s2))))
         else fst (snd (execute s2 cp (time_quantum s2))))
      else fst (snd (execute s2 cp (remaining_time cp))))"
  by (simp add: dispatch_def split: prod.splits)

lemma sched_inv_dispatch:
  assumes "sched_inv s"
  shows "sched_inv (dispatch s)"
proof (cases "ready_queue s = []")
  case True
  with assms show ?thesis
    by (simp add: dispatch_def get_next_process_def)
next
  case False
  obtain np s2 where g: "get_next_process s = (np, s2)" by (cases "get_next_process s") auto
  from get_next_process_Some[OF False] g obtain x where
    np: "np = Some (item_process x)" and m: "mset (ready_queue s) = add_mset x (mset (ready_queue s2))"
    and s2: "s2 = s\<lparr>ready_queue := ready_queue s2\<rparr>"
    by auto
  from assms m have f: "fresh_or_ok (item_process x)"
    by (simp add: sched_inv_def list_all_mset[of _ "ready_queue _"])
  from assms m s2 have i2: "sched_inv s2"
    unfolding sched_inv_def list_all_mset[of _ "ready_queue _"]
    by (metis (no_types, lifting) Scheduler.select_convs(5) Scheduler.surjective Scheduler.update_convs(3) insert_iff set_mset_add_mset_insert)
  have e: "sched_inv (fst (snd (execute s2 (item_process x) t)))" for t
    using i2 execute_metrics(2)[OF f, of s2 t] by (simp add: sched_inv_def)
  have r: "fresh_or_ok (snd (snd (execute s2 (item_process x) t)))" for t
    using execute_metrics(1)[OF f, of s2 t] by (simp add: fresh_or_ok_def)
  show ?thesis
    using g np e r
    by (simp add: dispatch_Some sched_inv_add_process)
qed

lemma admit_inv:
  assumes "list_all fresh_or_ok all_processes" "sched_inv s"
  shows "sched_inv (snd (admit all_processes idx s))"
  using assms
proof (induction all_processes idx s rule: admit.induct)
  case (1 all_processes process_index s)
  show ?case
  proof (cases "process_index < length all_processes
         \<and> arrival_time (all_processes ! process_index) \<le> current_time s")
    case True
    then have "fresh_or_ok (all_processes ! process_index)"
      using 1(2) by (simp add: list_all_length)
    with 1 True show ?thesis
      by (subst admit.simps) (simp add: sched_inv_add_process)
  next
    case False
    with 1 show ?thesis by (subst admit.simps) auto
  qed
qed

lemma schedule_body_inv:
  assumes "list_all fresh_or_ok all_processes" "sched_inv s"
  shows "sched_inv (snd (schedule_body all_processes idx s))"
proof -
  obtain idx1 s1 where a: "admit all_processes idx s = (idx1, s1)"
    by (cases "admit all_processes idx s") auto
  with admit_inv[OF assms, of idx] have i: "sched_inv s1" by simp
  then have "sched_inv (s1\<lparr>current_time := t\<rparr>)" for t
    by (simp add: sched_inv_def)
  with i a show ?thesis
    by (simp add: schedule_body_def sched_inv_dispatch)
qed

lemma schedule_loop_inv:
  assumes "schedule_loop all_processes idx s = Some r"
  shows "list_all fresh_or_ok all_processes \<longrightarrow> sched_inv s \<longrightarrow> sched_inv r"
proof (rule schedule_loop.raw_induct[OF _ assms,
      where P = "\<lambda>a i s r. list_all fresh_or_ok a \<longrightarrow> sched_inv s \<longrightarrow> sched_inv r"])
  fix f a i s r
  assume IH: "\<And>a i s r. f a i s = Some r \<Longrightarrow> list_all fresh_or_ok a \<longrightarrow> sched_inv s \<longrightarrow> sched_inv r"
    and eq: "(if i < length a \<or> ready_queue s \<noteq> []
              then case schedule_body a i s of (idx1, s1) \<Rightarrow> f a idx1 s1
              else Some s) = Some r"
  show "list_all fresh_or_ok a \<longrightarrow> sched_inv s \<longrightarrow> sched_inv r"
  proof (cases "i < length a \<or> ready_queue s \<noteq> []")
    case False
    with eq show ?thesis by auto
  next
    case True
    obtain idx1 s1 where b: "schedule_body a i s = (idx1, s1)"
      by (cases "schedule_body a i s") auto
    with True eq have "f a idx1 s1 = Some r" by simp
    from IH[OF this] schedule_body_inv[of a s i] b
    show ?thesis by auto
  qed
qed

lemma add_process_work:
  "queue_work (add_process s p) \<le> queue_work s + Suc (nat (remaining_time p))"
  by (simp add: queue_work_def add_process_queue_mset work_item_def)

lemma pending_work_Suc:
  "idx < length all_processes \<Longrightarrow>
   pending_work all_processes idx =
     Suc (Suc (nat (remaining_time (all_processes ! idx)))) + pending_work all_processes (Suc idx)"
  by (simp add: pending_work_def flip: Cons_nth_drop_Suc)

lemma admit_measure:
  "admit all_processes idx s = (idx1, s1) \<Longrightarrow>
     idx \<le> idx1
     \<and> pending_work all_processes idx1 + queue_work s1 + (idx1 - idx)
         \<le> pending_work all_processes idx + queue_work s
     \<and> algorithm s1 = algorithm s \<and> time_quantum s1 = time_quantum s
     \<and> current_time s1 = current_time s
     \<and> \<not> (idx1 < length all_processes \<and> arrival_time (all_processes ! idx1) \<le> current_time s1)
     \<and> (idx1 = idx \<longrightarrow> s1 = s)"
proof (induction all_processes idx s arbitrary: idx1 s1 rule: admit.induct)
  case (1 all_processes process_index s)
  show ?case
  proof (cases "process_index < length all_processes
         \<and> arrival_time (all_processes ! process_index) \<le> current_time s")
    case False
    with 1(2) show ?thesis
      by (subst (asm) admit.simps) auto
  next
    case True
    let ?s = "add_process s (all_processes ! process_index)"
    from True 1(2) have r: "admit all_processes (process_index + 1) ?s = (idx1, s1)"
      by (subst (asm) admit.simps) simp
    note ih = 1(1)[OF True r]
    have w: "queue_work ?s \<le> queue_work s + Suc (nat (remaining_time (all_processes ! process_index)))"
      by (rule add_process_work)
    have p: "pending_work all_processes process_index =
       Suc (Suc (nat (remaining_time (all_processes ! process_index))))
         + pending_work all_processes (Suc process_index)"
      using True by (simp add: pending_work_Suc)
    from ih w p show ?thesis by auto
  qed
qed

lemma execute_current_time:
  "current_time (fst (snd (execute s p t))) = current_time s + min t (remaining_time p)"
  by (simp add: execute_def Let_def)





lemma add_process_fifo:
  "algorithm s = ''FCFS'' \<or> algorithm s = ''RR'' \<Longrightarrow>
   add_process s p = s\<lparr>ready_queue := ready_queue s @ [Proc (p\<lparr>state := ''READY''\<rparr>)]\<rparr>"
  by (auto simp: add_process_def Let_def)

lemma admit_fifo:
  "algorithm s = ''FCFS'' \<or> algorithm s = ''RR'' \<Longrightarrow>
   admit all_processes idx s =
     (idx + length (takeWhile (\<lambda>q. arrival_time q \<le> current_time s) (drop idx all_processes)),
      s\<lparr>ready_queue := ready_queue s @
           map (\<lambda>q. Proc (q\<lparr>state := ''READY''\<rparr>))
             (takeWhile (\<lambda>q. arrival_time q \<le> current_time s) (drop idx all_processes))\<rparr>)"
proof (induction all_processes idx s rule: admit.induct)
  case (1 all_processes process_index s)
  show ?case
  proof (cases "process_index < length all_processes
         \<and> arrival_time (all_processes ! process_index) \<le> current_time s")
    case False
    show ?thesis
    proof (cases "process_index < length all_processes")
      case True
      then have "drop process_index all_processes =
          all_processes ! process_index # drop (Suc process_index) all_processes"
        by (simp add: Cons_nth_drop_Suc)
      with False True show ?thesis by (subst admit.simps) simp
    next
      case nl: False
      then show ?thesis by (subst admit.simps) simp
    qed
  next
    case True
    then have d: "drop process_index all_processes =
        all_processes ! process_index # drop (Suc process_index) all_processes"
      by (simp add: Cons_nth_drop_Suc)
    let ?p = "all_processes ! process_index"
    let ?s = "s\<lparr>ready_queue := ready_queue s @ [Proc (?p\<lparr>state := ''READY''\<rparr>)]\<rparr>"
    have ap: "add_process s ?p = ?s" using 1(2) by (rule add_process_fifo)
    have a: "algorithm ?s = ''FCFS'' \<or> algorithm ?s = ''RR''" using 1(2) by simp
    have ih: "admit all_processes (process_index + 1) ?s =
        (process_index + 1 + length (takeWhile (\<lambda>q. arrival_time q \<le> current_time ?s)
             (drop (process_index + 1) all_processes)),
         ?s\<lparr>ready_queue := ready_queue ?s @ map (\<lambda>q. Proc (q\<lparr>state := ''READY''\<rparr>))
             (takeWhile (\<lambda>q. arrival_time q \<le> current_time ?s)
                (drop (process_index + 1) all_processes))\<rparr>)"
      using 1(1)[OF True] a unfolding ap by blast
    have "admit all_processes process_index s = admit all_processes (process_index + 1) ?s"
      using True ap by (subst admit.simps) simp
    also note ih
    finally show ?thesis
      using True by (simp add: d)
  qed
qed



subsection \<open>Heap order\<close>

lemma heap_ordered_iff:
  "heap_ordered h = (\<forall>i. 0 < i \<and> i < length h \<longrightarrow> le_item (h ! ((i - 1) div 2)) (h ! i))"
  by (auto simp: heap_ordered_def list_all_iff)

lemma le_item_refl: "le_item x x"
  by (cases x) (simp_all add: le_item_def)

lemma lt_item_le: "lt_item x y \<Longrightarrow> le_item x y"
  by (cases x; cases y) (auto simp: le_item_def split: if_splits)

lemma le_item_trans:
  "is_tup x \<Longrightarrow> is_tup y \<Longrightarrow> is_tup z \<Longrightarrow> le_item x y \<Longrightarrow> le_item y z \<Longrightarrow> le_item x z"
  by (cases x; cases y; cases z) (auto simp: le_item_def split: if_splits)

lemma parent_child:
  fixes i p :: nat
  shows "0 < i \<Longrightarrow> ((i - 1) div 2 = p) = (i = 2 * p + 1 \<or> i = 2 * p + 2)"
  by presburger

lemma parent_less: "0 < (i::nat) \<Longrightarrow> (i - 1) div 2 < i"
  by presburger

lemma list_all_update: "list_all Q xs \<Longrightarrow> Q y \<Longrightarrow> list_all Q (xs[i := y])"
  using set_update_subset_insert[of xs i y] by (auto simp: list_all_iff)

lemma siftdown_loop_heap:
  assumes "siftdown_loop heap 0 pos x = (h, p)"
    and "list_all is_tup heap" "is_tup x" "pos < length heap"
    and "\<forall>i. 0 < i \<and> i < length heap \<and> i \<noteq> pos \<longrightarrow> le_item (heap ! ((i - 1) div 2)) (heap ! i)"
    and "\<forall>i. 0 < i \<and> i < length heap \<and> (i - 1) div 2 = pos \<longrightarrow> le_item x (heap ! i)"
    and "\<forall>i. 0 < i \<and> i < length heap \<and> (i - 1) div 2 = pos \<and> 0 < pos
            \<longrightarrow> le_item (heap ! ((pos - 1) div 2)) (heap ! i)"
  shows "heap_ordered (h[p := x]) \<and> list_all is_tup (h[p := x])"
  using assms
proof (induction heap "0::nat" pos x arbitrary: h p rule: siftdown_loop.induct)
  case (1 heap pos newitem)
  let ?pp = "(pos - 1) div 2"
  note I1 = 1(6) and I2 = 1(7) and I3 = 1(8)
  have tup: "\<And>i. i < length heap \<Longrightarrow> is_tup (heap ! i)"
    using 1(3) by (simp add: list_all_length)
  show ?case
  proof (cases "0 < pos \<and> lt_item newitem (heap ! ?pp)")
    case False
    with 1(2) have hp: "h = heap" "p = pos"
      by (subst (asm) siftdown_loop.simps, auto simp: Let_def split: if_splits)+
    have ex: "0 < pos \<Longrightarrow> le_item (heap ! ?pp) newitem"
      using False by (simp add: le_item_def)
    have "le_item ((heap[pos := newitem]) ! ((i - 1) div 2)) ((heap[pos := newitem]) ! i)"
      if i: "0 < i" "i < length heap" for i
    proof (cases "i = pos")
      case True
      with i have "?pp < pos" using parent_less[of pos] by blast
      with True i ex show ?thesis using 1(5) by simp
    next
      case ne: False
      show ?thesis
      proof (cases "(i - 1) div 2 = pos")
        case True
        with i ne I2 1(5) show ?thesis by simp
      next
        case False
        with i ne I1 show ?thesis by simp
      qed
    qed
    moreover have "list_all is_tup (heap[pos := newitem])"
      using 1(3,4) by (rule list_all_update)
    ultimately show ?thesis
      by (simp add: hp heap_ordered_iff)
  next
    case True
    let ?heap = "heap[pos := heap ! ?pp]"
    have pp: "?pp < pos" using True parent_less[of pos] by blast
    have ppl: "?pp < length heap" using pp 1(5) by simp
    from True 1(2) have r: "siftdown_loop ?heap 0 ?pp newitem = (h, p)"
      by (subst (asm) siftdown_loop.simps) (simp add: Let_def)
    have lx: "le_item newitem (heap ! ?pp)" using True by (simp add: lt_item_le)
    have t': "list_all is_tup ?heap"
      using 1(3) tup[OF ppl] by (rule list_all_update)
    have J1: "\<forall>i. 0 < i \<and> i < length ?heap \<and> i \<noteq> ?pp
                 \<longrightarrow> le_item (?heap ! ((i - 1) div 2)) (?heap ! i)"
    proof (intro allI impI)
      fix i assume i: "0 < i \<and> i < length ?heap \<and> i \<noteq> ?pp"
      show "le_item (?heap ! ((i - 1) div 2)) (?heap ! i)"
      proof (cases "i = pos")
        case True
        with pp 1(5) show ?thesis by (simp add: le_item_refl)
      next
        case ne: False
        show ?thesis
        proof (cases "(i - 1) div 2 = pos")
          case True
          with i ne I3 pp 1(5) show ?thesis by simp
        next
          case False
          with i ne I1 show ?thesis by simp
        qed
      qed
    qed
    have J2: "\<forall>i. 0 < i \<and> i < length ?heap \<and> (i - 1) div 2 = ?pp \<longrightarrow> le_item newitem (?heap ! i)"
    proof (intro allI impI)
      fix i assume i: "0 < i \<and> i < length ?heap \<and> (i - 1) div 2 = ?pp"
      show "le_item newitem (?heap ! i)"
      proof (cases "i = pos")
        case True
        with lx 1(5) show ?thesis by simp
      next
        case ne: False
        with i I1 have "le_item (heap ! ?pp) (heap ! i)" by auto
        moreover have "i < length heap" using i by simp
        ultimately have "le_item newitem (heap ! i)"
          using lx le_item_trans[of newitem "heap ! ?pp" "heap ! i"] 1(4) tup ppl by blast
        with ne show ?thesis by simp
      qed
    qed
    have J3: "\<forall>i. 0 < i \<and> i < length ?heap \<and> (i - 1) div 2 = ?pp \<and> 0 < ?pp
                 \<longrightarrow> le_item (?heap ! ((?pp - 1) div 2)) (?heap ! i)"
    proof (intro allI impI)
      fix i assume i: "0 < i \<and> i < length ?heap \<and> (i - 1) div 2 = ?pp \<and> 0 < ?pp"
      then have g: "(?pp - 1) div 2 < ?pp" using parent_less[of ?pp] by blast
      with pp have gn: "(?pp - 1) div 2 \<noteq> pos" by simp
      from i pp ppl I1 have a: "le_item (heap ! ((?pp - 1) div 2)) (heap ! ?pp)" by auto
      show "le_item (?heap ! ((?pp - 1) div 2)) (?heap ! i)"
      proof (cases "i = pos")
        case True
        with a gn 1(5) show ?thesis by simp
      next
        case ne: False
        with i I1 have "le_item (heap ! ?pp) (heap ! i)" by auto
        moreover have "(?pp - 1) div 2 < length heap" using g ppl by linarith
        moreover have "i < length heap" using i by simp
        ultimately have "le_item (heap ! ((?pp - 1) div 2)) (heap ! i)"
          using a le_item_trans[of "heap ! ((?pp - 1) div 2)" "heap ! ?pp" "heap ! i"] tup ppl
          by blast
        with ne gn show ?thesis by simp
      qed
    qed
    from 1(1)[OF _ refl refl _ r t' 1(4) _ J1 J2 J3] True ppl
    show ?thesis by simp
  qed
qed

lemma siftup_loop_heap:
  assumes "siftup_loop heap endpos pos childpos = (h, p)"
    and "list_all is_tup heap" "pos < length heap" "childpos = 2 * pos + 1" "endpos = length heap"
    and "\<forall>i. 0 < i \<and> i < length heap \<and> i \<noteq> pos \<and> (i - 1) div 2 \<noteq> pos
            \<longrightarrow> le_item (heap ! ((i - 1) div 2)) (heap ! i)"
    and "\<forall>i. 0 < i \<and> i < length heap \<and> (i - 1) div 2 = pos \<and> 0 < pos
            \<longrightarrow> le_item (heap ! ((pos - 1) div 2)) (heap ! i)"
  shows "p < length h \<and> length h = length heap \<and> list_all is_tup h \<and> length h \<le> 2 * p + 1
       \<and> (\<forall>i. 0 < i \<and> i < length h \<and> i \<noteq> p \<longrightarrow> le_item (h ! ((i - 1) div 2)) (h ! i))"
  using assms
proof (induction heap endpos pos childpos arbitrary: h p rule: siftup_loop.induct)
  case (1 heap endpos pos childpos)
  note K1 = 1(7) and K2 = 1(8)
  have tup: "\<And>i. i < length heap \<Longrightarrow> is_tup (heap ! i)"
    using 1(3) by (simp add: list_all_length)
  show ?case
  proof (cases "childpos < endpos")
    case False
    with 1(2) have hp: "h = heap" "p = pos"
      by (subst (asm) siftup_loop.simps, simp)+
    have leaf: "length heap \<le> 2 * pos + 1" using False 1(5,6) by simp
    have "le_item (heap ! ((i - 1) div 2)) (heap ! i)" if i: "0 < i" "i < length heap" "i \<noteq> pos" for i
    proof -
      have "(i - 1) div 2 \<noteq> pos"
        using parent_child[of i pos] i leaf by auto
      with i K1 show ?thesis by simp
    qed
    with leaf 1(3,4) show ?thesis by (simp add: hp)
  next
    case True
    define c where "c = (if childpos + 1 < endpos \<and> \<not> lt_item (heap ! childpos) (heap ! (childpos + 1))
                          then childpos + 1 else childpos)"
    let ?heap = "heap[pos := heap ! c]"
    have c: "c < length heap" "pos < c" "(c - 1) div 2 = pos" "0 < c"
      using True 1(5,6) by (auto simp: c_def)
    have sib: "le_item (heap ! c) (heap ! i)"
      if i: "0 < i" "i < length heap" "(i - 1) div 2 = pos" "i \<noteq> c" for i
    proof -
      from i parent_child[of i pos] have ii: "i = childpos \<or> i = childpos + 1"
        using 1(5) by auto
      show ?thesis
      proof (cases "c = childpos")
        case True
        with ii i have e: "i = childpos + 1" by auto
        with i 1(6) True c_def have "lt_item (heap ! childpos) (heap ! (childpos + 1))"
          by (auto split: if_splits)
        with e True show ?thesis by (simp add: lt_item_le)
      next
        case False
        then have cc: "c = childpos + 1" "\<not> lt_item (heap ! childpos) (heap ! (childpos + 1))"
          by (auto simp: c_def split: if_splits)
        with ii i have "i = childpos" by auto
        with cc show ?thesis by (simp add: le_item_def)
      qed
    qed
    from True 1(2) have r: "siftup_loop ?heap endpos c (2 * c + 1) = (h, p)"
      by (subst (asm) siftup_loop.simps) (auto simp: Let_def c_def split: if_splits)
    have t': "list_all is_tup ?heap"
      using 1(3) tup[OF c(1)] by (rule list_all_update)
    have J1: "\<forall>i. 0 < i \<and> i < length ?heap \<and> i \<noteq> c \<and> (i - 1) div 2 \<noteq> c
                 \<longrightarrow> le_item (?heap ! ((i - 1) div 2)) (?heap ! i)"
    proof (intro allI impI)
      fix i assume i: "0 < i \<and> i < length ?heap \<and> i \<noteq> c \<and> (i - 1) div 2 \<noteq> c"
      show "le_item (?heap ! ((i - 1) div 2)) (?heap ! i)"
      proof (cases "i = pos")
        case True
        with i have "(pos - 1) div 2 < pos" using parent_less[of pos] by blast
        moreover have "le_item (heap ! ((pos - 1) div 2)) (heap ! c)"
          using K2 c True i by simp
        ultimately show ?thesis using True 1(4) by simp
      next
        case ne: False
        show ?thesis
        proof (cases "(i - 1) div 2 = pos")
          case True
          with sib[of i] i ne 1(4) show ?thesis by simp
        next
          case False
          with i ne K1 show ?thesis by simp
        qed
      qed
    qed
    have J2: "\<forall>i. 0 < i \<and> i < length ?heap \<and> (i - 1) div 2 = c \<and> 0 < c
                 \<longrightarrow> le_item (?heap ! ((c - 1) div 2)) (?heap ! i)"
    proof (intro allI impI)
      fix i assume i: "0 < i \<and> i < length ?heap \<and> (i - 1) div 2 = c \<and> 0 < c"
      then have "c < i" using parent_less[of i] by auto
      with c have ne: "i \<noteq> pos" by simp
      from i c have "(i - 1) div 2 \<noteq> pos" by simp
      with i ne K1 have "le_item (heap ! c) (heap ! i)" by auto
      with ne c 1(4) show "le_item (?heap ! ((c - 1) div 2)) (?heap ! i)" by simp
    qed
    from 1(1)[OF True refl c_def r t' _ refl _ J1 J2] c 1(6)
    show ?thesis by simp
  qed
qed

lemma heappush_heap:
  assumes "tup_heap heap" "is_tup item"
  shows "tup_heap (heappush heap item)"
proof -
  let ?h = "heap @ [item]"
  let ?n = "length heap"
  obtain h p where r: "siftdown_loop ?h 0 ?n item = (h, p)"
    by (cases "siftdown_loop ?h 0 ?n item") auto
  have t: "list_all is_tup ?h" using assms by (simp add: tup_heap_def)
  have ho: "\<And>i. 0 < i \<Longrightarrow> i < length heap \<Longrightarrow> le_item (heap ! ((i - 1) div 2)) (heap ! i)"
    using assms(1) by (simp add: tup_heap_def heap_ordered_iff)
  have I1: "\<forall>i. 0 < i \<and> i < length ?h \<and> i \<noteq> ?n \<longrightarrow> le_item (?h ! ((i - 1) div 2)) (?h ! i)"
  proof (intro allI impI)
    fix i assume i: "0 < i \<and> i < length ?h \<and> i \<noteq> ?n"
    then have il: "i < length heap" by simp
    moreover have "(i - 1) div 2 < length heap" using parent_less[of i] i il by linarith
    ultimately show "le_item (?h ! ((i - 1) div 2)) (?h ! i)"
      using ho[of i] i by (simp add: nth_append)
  qed
  have nc: "\<And>i. 0 < i \<Longrightarrow> i < length ?h \<Longrightarrow> (i - 1) div 2 \<noteq> ?n"
    using parent_less by fastforce
  have I2: "\<forall>i. 0 < i \<and> i < length ?h \<and> (i - 1) div 2 = ?n \<longrightarrow> le_item item (?h ! i)"
    using nc by blast
  have I3: "\<forall>i. 0 < i \<and> i < length ?h \<and> (i - 1) div 2 = ?n \<and> 0 < ?n
               \<longrightarrow> le_item (?h ! ((?n - 1) div 2)) (?h ! i)"
    using nc by blast
  from siftdown_loop_heap[OF r t assms(2) _ I1 I2 I3] r
  show ?thesis
    by (simp add: heappush_def siftdown_def tup_heap_def)
qed

lemma siftup_root_heap:
  assumes t: "list_all is_tup heap" and ne: "heap \<noteq> []"
    and ho: "\<forall>i. 0 < i \<and> i < length heap \<and> (i - 1) div 2 \<noteq> 0
               \<longrightarrow> le_item (heap ! ((i - 1) div 2)) (heap ! i)"
  shows "tup_heap (siftup heap 0)"
proof -
  obtain h p where r: "siftup_loop heap (length heap) 0 (2 * 0 + 1) = (h, p)"
    by (cases "siftup_loop heap (length heap) 0 (2 * 0 + 1)") auto
  from ne have l: "0 < length heap" by (simp only: length_greater_0_conv not_False_eq_True)
  have K1: "\<forall>i. 0 < i \<and> i < length heap \<and> i \<noteq> 0 \<and> (i - 1) div 2 \<noteq> 0
              \<longrightarrow> le_item (heap ! ((i - 1) div 2)) (heap ! i)"
    using ho by blast
  have K2: "\<forall>i. 0 < i \<and> i < length heap \<and> (i - 1) div 2 = 0 \<and> 0 < (0::nat)
              \<longrightarrow> le_item (heap ! ((0 - 1) div 2)) (heap ! i)"
    by simp
  from siftup_loop_heap[OF r t l refl refl K1 K2]
  have p: "p < length h" and len: "length h = length heap" and th: "list_all is_tup h"
    and leaf: "length h \<le> 2 * p + 1"
    and o: "\<forall>i. 0 < i \<and> i < length h \<and> i \<noteq> p \<longrightarrow> le_item (h ! ((i - 1) div 2)) (h ! i)"
    by auto
  let ?x = "heap ! 0"
  let ?h2 = "h[p := ?x]"
  have tx: "is_tup ?x" using t l by (simp add: list_all_length)
  have t2: "list_all is_tup ?h2" using th tx by (rule list_all_update)
  obtain h3 p3 where r3: "siftdown_loop ?h2 0 p ?x = (h3, p3)"
    by (cases "siftdown_loop ?h2 0 p ?x") auto
  have nc: "\<And>i. 0 < i \<Longrightarrow> i < length h \<Longrightarrow> (i - 1) div 2 \<noteq> p"
    using parent_child leaf by fastforce
  have I1: "\<forall>i. 0 < i \<and> i < length ?h2 \<and> i \<noteq> p \<longrightarrow> le_item (?h2 ! ((i - 1) div 2)) (?h2 ! i)"
  proof (intro allI impI)
    fix i assume i: "0 < i \<and> i < length ?h2 \<and> i \<noteq> p"
    then have "(i - 1) div 2 \<noteq> p" using nc[of i] by simp
    with i o show "le_item (?h2 ! ((i - 1) div 2)) (?h2 ! i)" by simp
  qed
  have nc2: "\<And>i. 0 < i \<Longrightarrow> i < length ?h2 \<Longrightarrow> (i - 1) div 2 \<noteq> p"
    using nc by simp
  have I2: "\<forall>i. 0 < i \<and> i < length ?h2 \<and> (i - 1) div 2 = p \<longrightarrow> le_item ?x (?h2 ! i)"
    using nc2 by blast
  have I3: "\<forall>i. 0 < i \<and> i < length ?h2 \<and> (i - 1) div 2 = p \<and> 0 < p
               \<longrightarrow> le_item (?h2 ! ((p - 1) div 2)) (?h2 ! i)"
    using nc2 by blast
  have pl: "p < length ?h2" using p by simp
  from siftdown_loop_heap[OF r3 t2 tx pl I1 I2 I3]
  have "tup_heap (h3[p3 := ?x])" by (simp add: tup_heap_def)
  moreover have "siftup heap 0 = h3[p3 := ?x]"
    using r r3 p by (simp add: siftup_def siftdown_def Let_def)
  ultimately show ?thesis by simp
qed

lemma heappop_heap:
  assumes "tup_heap heap" "heappop heap = Some (x, h)"
  shows "x = heap ! 0 \<and> tup_heap h"
proof -
  from assms(2) have ne: "heap \<noteq> []" by (auto simp: heappop_def)
  have t: "list_all is_tup heap"
    and ho: "\<And>i. 0 < i \<Longrightarrow> i < length heap \<Longrightarrow> le_item (heap ! ((i - 1) div 2)) (heap ! i)"
    using assms(1) by (simp_all add: tup_heap_def heap_ordered_iff)
  show ?thesis
  proof (cases "butlast heap = []")
    case True
    with ne have "heap = [last heap]" by (metis append_Nil append_butlast_last_id)
    then have "heap ! 0 = last heap" by (metis nth_Cons_0)
    with assms(2) ne True show ?thesis
      by (auto simp: heappop_def Let_def tup_heap_def heap_ordered_def)
  next
    case False
    let ?h1 = "butlast heap"
    let ?h = "?h1[0 := last heap]"
    from assms(2) ne False have x: "x = ?h1 ! 0" and h: "h = siftup ?h 0"
      by (auto simp: heappop_def Let_def)
    from False have l1: "0 < length ?h1" by (simp only: length_greater_0_conv not_False_eq_True)
    then have x0: "x = heap ! 0" using x by (simp add: nth_butlast)
    have tl: "is_tup (last heap)" using t ne by (simp add: list_all_iff)
    have "list_all is_tup ?h1" using t by (auto simp: list_all_iff dest: in_set_butlastD)
    then have th: "list_all is_tup ?h" using tl by (rule list_all_update)
    have o: "\<forall>i. 0 < i \<and> i < length ?h \<and> (i - 1) div 2 \<noteq> 0
               \<longrightarrow> le_item (?h ! ((i - 1) div 2)) (?h ! i)"
    proof (intro allI impI)
      fix i assume i: "0 < i \<and> i < length ?h \<and> (i - 1) div 2 \<noteq> 0"
      then have il: "i < length heap - 1" by simp
      have pl: "(i - 1) div 2 < length heap - 1" using parent_less[of i] i il by linarith
      have "i < length heap" using il by linarith
      with ho[of i] i have "le_item (heap ! ((i - 1) div 2)) (heap ! i)" by blast
      with i il pl show "le_item (?h ! ((i - 1) div 2)) (?h ! i)"
        by (simp add: nth_butlast)
    qed
    have "?h \<noteq> []" using False by simp
    from siftup_root_heap[OF th this o] x0 h show ?thesis by simp
  qed
qed

lemma heap_root_min:
  assumes "tup_heap h" "i < length h"
  shows "le_item (h ! 0) (h ! i)"
  using assms(2)
proof (induction i rule: less_induct)
  case (less i)
  show ?case
  proof (cases "i = 0")
    case True
    then show ?thesis by (simp add: le_item_refl)
  next
    case False
    let ?p = "(i - 1) div 2"
    have pl: "?p < i" using False parent_less[of i] by simp
    then have pp: "?p < length h" using less.prems by simp
    have a: "le_item (h ! 0) (h ! ?p)" using less.IH[OF pl pp] .
    have b: "le_item (h ! ?p) (h ! i)"
      using assms(1) False less.prems by (simp add: tup_heap_def heap_ordered_iff)
    have t: "\<And>j. j < length h \<Longrightarrow> is_tup (h ! j)"
      using assms(1) by (simp add: tup_heap_def list_all_length)
    have "0 < length h" using less.prems by linarith
    from le_item_trans[OF t[OF this] t[OF pp] t[OF less.prems] a b] show ?thesis .
  qed
qed

lemma le_item_entry_le: "is_tup x \<Longrightarrow> is_tup y \<Longrightarrow> le_item x y = entry_le x y"
  by (cases x; cases y) (auto simp: le_item_def)

lemma add_process_heap:
  assumes "tup_heap (ready_queue s)"
    and "algorithm s = ''SJF'' \<or> algorithm s = ''Priority''"
  shows "tup_heap (ready_queue (add_process s q))"
  using assms by (auto simp: add_process_def Let_def heappush_heap)

lemma admit_heap:
  assumes "tup_heap (ready_queue s)"
    and "algorithm s = ''SJF'' \<or> algorithm s = ''Priority''"
  shows "tup_heap (ready_queue (snd (admit all_processes idx s)))"
  using assms
proof (induction all_processes idx s rule: admit.induct)
  case (1 all_processes process_index s)
  show ?case
  proof (cases "process_index < length all_processes
         \<and> arrival_time (all_processes ! process_index) \<le> current_time s")
    case True
    with 1 show ?thesis
      by (subst admit.simps) (simp add: add_process_heap)
  next
    case False
    with 1 show ?thesis by (subst admit.simps) auto
  qed
qed

lemma get_next_process_heap:
  assumes alg: "algorithm s = ''SJF'' \<or> algorithm s = ''Priority''"
    and hp: "tup_heap (ready_queue s)" and ne: "ready_queue s \<noteq> []"
  shows "fst (get_next_process s) = Some (item_process (ready_queue s ! 0))
       \<and> tup_heap (ready_queue (snd (get_next_process s)))
       \<and> mset (ready_queue s)
           = add_mset (ready_queue s ! 0) (mset (ready_queue (snd (get_next_process s))))
       \<and> algorithm (snd (get_next_process s)) = algorithm s"
proof -
  from ne obtain x h where p: "heappop (ready_queue s) = Some (x, h)"
    by (cases "heappop (ready_queue s)") (auto simp: heappop_def Let_def split: if_splits)
  from heappop_heap[OF hp p] heappop_mset[OF p] p alg ne show ?thesis
    by (auto simp: get_next_process_def)
qed

lemma dispatch_heap:
  assumes alg: "algorithm s = ''SJF'' \<or> algorithm s = ''Priority''"
    and hp: "tup_heap (ready_queue s)"
  shows "tup_heap (ready_queue (dispatch s))"
proof (cases "ready_queue s = []")
  case True
  with hp show ?thesis by (simp add: dispatch_def get_next_process_def)
next
  case False
  obtain np s2 where g: "get_next_process s = (np, s2)" by (cases "get_next_process s") auto
  from get_next_process_heap[OF alg hp False] g
  have np: "np = Some (item_process (ready_queue s ! 0))" and h2: "tup_heap (ready_queue s2)"
    and a2: "algorithm s2 = algorithm s"
    by auto
  from alg a2 have "algorithm s2 \<noteq> ''RR''" by auto
  with g np h2 show ?thesis by (simp add: dispatch_Some)
qed

lemma schedule_body_heap:
  assumes alg: "algorithm s = ''SJF'' \<or> algorithm s = ''Priority''"
    and hp: "tup_heap (ready_queue s)"
  shows "tup_heap (ready_queue (snd (schedule_body all_processes idx s)))"
proof -
  obtain i a where ad: "admit all_processes idx s = (i, a)"
    by (cases "admit all_processes idx s") auto
  from admit_heap[OF hp alg, of all_processes idx] ad have ha: "tup_heap (ready_queue a)" by simp
  from admit_measure[OF ad] alg have aa: "algorithm a = ''SJF'' \<or> algorithm a = ''Priority''"
    by simp
  show ?thesis
    using ad ha dispatch_heap[OF aa ha] by (auto simp: schedule_body_def)
qed

subsection \<open>Keyed entries\<close>

lemma keyed_entry_le:
  "keyed_entry alg x \<Longrightarrow> keyed_entry alg y
     \<Longrightarrow> entry_le x y = dispatch_le alg (item_process x) (item_process y)"
  by (cases x; cases y) (auto simp: dispatch_le_def)

lemma keyed_entry_Tup:
  "keyed_entry alg x \<Longrightarrow>
     x = Tup (primary_key alg (item_process x)) (arrival_time (item_process x)) (item_process x)"
  by (cases x) auto

lemma add_process_ready_heap:
  assumes "ready_heap s" and "algorithm s = ''SJF'' \<or> algorithm s = ''Priority''"
  shows "ready_heap (add_process s q)"
proof -
  have "list_all (keyed_entry (algorithm s)) (ready_queue (add_process s q))"
    using assms
    unfolding ready_heap_def list_all_mset[of _ "ready_queue _"] add_process_queue_mset
    by (auto simp: primary_key_def)
  with assms add_process_heap[of s q] show ?thesis
    by (simp add: ready_heap_def)
qed

lemma admit_ready_heap:
  assumes "ready_heap s" and "algorithm s = ''SJF'' \<or> algorithm s = ''Priority''"
  shows "ready_heap (snd (admit all_processes idx s))"
  using assms
proof (induction all_processes idx s rule: admit.induct)
  case (1 all_processes process_index s)
  show ?case
  proof (cases "process_index < length all_processes
         \<and> arrival_time (all_processes ! process_index) \<le> current_time s")
    case True
    with 1 show ?thesis
      by (subst admit.simps) (simp add: add_process_ready_heap)
  next
    case False
    with 1 show ?thesis by (subst admit.simps) auto
  qed
qed

lemma get_next_process_ready_heap:
  assumes alg: "algorithm s = ''SJF'' \<or> algorithm s = ''Priority''"
    and hp: "ready_heap s" and ne: "ready_queue s \<noteq> []"
  shows "ready_heap (snd (get_next_process s))"
proof -
  from hp have th: "tup_heap (ready_queue s)" by (simp add: ready_heap_def)
  note g = get_next_process_heap[OF alg th ne]
  from g hp have "list_all (keyed_entry (algorithm s)) (ready_queue (snd (get_next_process s)))"
    unfolding ready_heap_def list_all_mset[of _ "ready_queue _"] by auto
  with g show ?thesis by (simp add: ready_heap_def)
qed

lemma dispatch_ready_heap:
  assumes alg: "algorithm s = ''SJF'' \<or> algorithm s = ''Priority''"
    and hp: "ready_heap s"
  shows "ready_heap (dispatch s)"
proof (cases "ready_queue s = []")
  case True
  with hp show ?thesis by (simp add: dispatch_def get_next_process_def)
next
  case False
  obtain np s2 where g: "get_next_process s = (np, s2)" by (cases "get_next_process s") auto
  from hp have th: "tup_heap (ready_queue s)" by (simp add: ready_heap_def)
  from get_next_process_heap[OF alg th False] g
  have np: "np = Some (item_process (ready_queue s ! 0))" and a2: "algorithm s2 = algorithm s"
    by auto
  from get_next_process_ready_heap[OF alg hp False] g have h2: "ready_heap s2" by simp
  from alg a2 have "algorithm s2 \<noteq> ''RR''" by auto
  with g np h2 show ?thesis by (simp add: dispatch_Some ready_heap_def)
qed

lemma schedule_body_ready_heap:
  assumes alg: "algorithm s = ''SJF'' \<or> algorithm s = ''Priority''"
    and hp: "ready_heap s"
  shows "ready_heap (snd (schedule_body all_processes idx s))"
proof -
  obtain i a where ad: "admit all_processes idx s = (i, a)"
    by (cases "admit all_processes idx s") auto
  from admit_ready_heap[OF hp alg, of all_processes idx] ad have ha: "ready_heap a" by simp
  from admit_measure[OF ad] alg have aa: "algorithm a = ''SJF'' \<or> algorithm a = ''Priority''"
    by simp
  from ha have "ready_heap (a\<lparr>current_time := t\<rparr>)" for t
    by (simp add: ready_heap_def)
  with ad ha dispatch_ready_heap[OF aa ha] show ?thesis
    by (auto simp: schedule_body_def)
qed

section \<open>Claims about the allocator\<close>

text \<open>
  C1 (partition invariant). Starting from the initial single free block, after every
  sequence of allocate and deallocate calls whose allocation requests are positive (the
  precondition of allocate), the block list is sorted by start address, contiguous,
  non-overlapping, its sizes sum to \<open>total_memory\<close>, and the address ranges of the blocks
  cover exactly \<open>[0, total_memory)\<close>.
\<close>

theorem partition_invariant:
  assumes "list_all valid_op ops"
  shows "sorted_by_start (memory_blocks (run_ops (MemoryManager_init tm strat) ops))
       \<and> contiguous (memory_blocks (run_ops (MemoryManager_init tm strat) ops))
       \<and> non_overlapping (memory_blocks (run_ops (MemoryManager_init tm strat) ops))
       \<and> sum_list (map size_b (memory_blocks (run_ops (MemoryManager_init tm strat) ops))) = tm
       \<and> (\<Union>b \<in> set (memory_blocks (run_ops (MemoryManager_init tm strat) ops)). block_range b)
           = {0 ..< tm}"
proof (cases "0 < tm")
  case True
  let ?mm = "run_ops (MemoryManager_init tm strat) ops"
  have t: "total_memory ?mm = tm"
    by (simp add: total_memory_run_ops MemoryManager_init_def)
  from wf_reachable[OF True assms, of strat]
  have c: "chain 0 (memory_blocks ?mm) tm" and p: "\<forall>b \<in> set (memory_blocks ?mm). 0 < size_b b"
    by (auto simp: wf_mm_def wf_blocks_def wf_core_def t)
  show ?thesis
    using chain_sorted[OF c p] chain_contiguous[OF c] chain_non_overlapping[OF c p]
      chain_sum[OF c] chain_cover[OF c p]
    by simp
next
  case False
  then have "run_ops (MemoryManager_init tm strat) ops = MemoryManager_init tm strat"
    using assms by (simp add: run_ops_nonpos)
  with False show ?thesis
    by (simp add: MemoryManager_init_def MemoryBlock_init_def sorted_by_start_def
        non_overlapping_def block_range_def)
qed

theorem partition_invariant_witness:
  "list_all valid_op ops_example
   \<and> memory_blocks (run_ops (MemoryManager_init 1024 ''Best-Fit'') ops_example) =
       [\<lparr>oid = 0, start = 0, size_b = 300, allocated = False, process_id = None\<rparr>,
        \<lparr>oid = 2, start = 300, size_b = 150, allocated = True, process_id = Some 3\<rparr>,
        \<lparr>oid = 3, start = 450, size_b = 574, allocated = False, process_id = None\<rparr>]
   \<and> sorted_by_start (memory_blocks (run_ops (MemoryManager_init 1024 ''Best-Fit'') ops_example))
   \<and> contiguous (memory_blocks (run_ops (MemoryManager_init 1024 ''Best-Fit'') ops_example))
   \<and> non_overlapping (memory_blocks (run_ops (MemoryManager_init 1024 ''Best-Fit'') ops_example))
   \<and> sum_list (map size_b (memory_blocks (run_ops (MemoryManager_init 1024 ''Best-Fit'') ops_example)))
       = 1024"
proof -
  have v: "list_all valid_op ops_example"
    by (simp add: ops_example_def Process_init_def)
  from partition_invariant[OF v, of 1024 "''Best-Fit''"] v ops_example_blocks
  show ?thesis by simp
qed

text \<open>
  C10 (positive sizes). With a positive \<open>total_memory\<close> and positive allocation requests,
  every block of the block list has a size greater than zero after every sequence of
  allocate and deallocate calls.
\<close>

theorem blocks_positive:
  assumes "0 < tm" "list_all valid_op ops"
  shows "\<forall>b \<in> set (memory_blocks (run_ops (MemoryManager_init tm strat) ops)). 0 < size_b b"
  using wf_reachable[OF assms, of strat]
  by (simp add: wf_mm_def wf_blocks_def wf_core_def)

theorem blocks_positive_witness:
  "(0::int) < 1024 \<and> list_all valid_op ops_example
   \<and> memory_blocks (run_ops (MemoryManager_init 1024 ''Best-Fit'') ops_example) \<noteq> []
   \<and> list_all (\<lambda>b. 0 < size_b b)
        (memory_blocks (run_ops (MemoryManager_init 1024 ''Best-Fit'') ops_example))"
proof -
  have v: "list_all valid_op ops_example"
    by (simp add: ops_example_def Process_init_def)
  have z: "(0::int) < 1024" by simp
  from blocks_positive[OF z v, of "''Best-Fit''"] v ops_example_blocks
  show ?thesis by (simp add: list_all_iff)
qed

text \<open>
  C7 (merge completeness). After every deallocate call on a state reached from the initial
  one (positive \<open>total_memory\<close>, positive requests), no two blocks that are neighbours in
  the block list are both free, and no two address-adjacent blocks (one ends where the
  other starts) are both free. A successful deallocate establishes the first property from
  any state, whatever the length of the run of free neighbours.
\<close>

theorem merge_complete:
  assumes "0 < tm" "list_all valid_op ops"
  shows "no_adjacent_free
           (memory_blocks (fst (snd (deallocate (run_ops (MemoryManager_init tm strat) ops) p))))
       \<and> (\<forall>x \<in> set (memory_blocks
                       (fst (snd (deallocate (run_ops (MemoryManager_init tm strat) ops) p)))).
           \<forall>y \<in> set (memory_blocks
                       (fst (snd (deallocate (run_ops (MemoryManager_init tm strat) ops) p)))).
             start x + size_b x = start y \<longrightarrow> allocated x \<or> allocated y)
       \<and> (fst (deallocate mm0 q) \<longrightarrow>
            no_adjacent_free (memory_blocks (fst (snd (deallocate mm0 q)))))"
proof -
  let ?mm = "fst (snd (deallocate (run_ops (MemoryManager_init tm strat) ops) p))"
  have w: "wf_mm ?mm"
    using wf_reachable[OF assms, of strat] by (rule wf_deallocate)
  have t: "total_memory ?mm = tm"
    by (simp add: total_memory_deallocate total_memory_run_ops MemoryManager_init_def)
  from w have c: "chain 0 (memory_blocks ?mm) tm"
    and s: "\<forall>b \<in> set (memory_blocks ?mm). 0 < size_b b"
    and n: "no_adjacent_free (memory_blocks ?mm)"
    by (auto simp: wf_mm_def wf_blocks_def wf_core_def t)
  have "\<forall>x \<in> set (memory_blocks ?mm). \<forall>y \<in> set (memory_blocks ?mm).
          start x + size_b x = start y \<longrightarrow> allocated x \<or> allocated y"
    using chain_adjacent[OF c s n] by blast
  with n show ?thesis
    using deallocate_naf[of mm0 q] by blast
qed

theorem merge_complete_witness:
  "(0::int) < 300 \<and> list_all valid_op ops_run3
   \<and> memory_blocks (run_ops (MemoryManager_init 300 ''First-Fit'') ops_run3) =
       [\<lparr>oid = 0, start = 0, size_b = 100, allocated = False, process_id = None\<rparr>,
        \<lparr>oid = 1, start = 100, size_b = 100, allocated = True, process_id = Some 2\<rparr>,
        \<lparr>oid = 2, start = 200, size_b = 100, allocated = False, process_id = None\<rparr>]
   \<and> memory_blocks (fst (snd (deallocate (run_ops (MemoryManager_init 300 ''First-Fit'') ops_run3)
        (Process_init 2 1 4 100 1)))) =
       [\<lparr>oid = 0, start = 0, size_b = 300, allocated = False, process_id = None\<rparr>]
   \<and> no_adjacent_free
        (memory_blocks (fst (snd (deallocate (run_ops (MemoryManager_init 300 ''First-Fit'') ops_run3)
          (Process_init 2 1 4 100 1)))))
   \<and> fst (deallocate mm30 p30)
   \<and> no_adjacent_free (memory_blocks (fst (snd (deallocate mm30 p30))))"
proof -
  have v: "list_all valid_op ops_run3"
    by (simp add: ops_run3_def Process_init_def)
  have z: "(0::int) < 300" by simp
  have d: "fst (deallocate mm30 p30)"
    by (simp add: mm30_p30 deallocate_def Let_def Process_init_def)
  from merge_complete[OF z v, of "''First-Fit''" "Process_init 2 1 4 100 1" mm30 p30]
    v d ops_run3_blocks ops_run3_dealloc
  show ?thesis by simp
qed

text \<open>
  C8 (deallocate failure). deallocate returns false exactly when the pid has no entry in
  the ownership map; a false-returning call returns the allocator state and the process
  unchanged; and for a process that owns a block, the first call returns true and a second
  call returns false and changes nothing.
\<close>

theorem deallocate_result:
  "(\<not> fst (deallocate mm p)) = (map_of (allocated_blocks mm) (pid p) = None)
   \<and> (\<not> fst (deallocate mm p) \<longrightarrow> snd (deallocate mm p) = (mm, p))
   \<and> (map_of (allocated_blocks mm) (pid p) \<noteq> None \<longrightarrow>
        fst (deallocate mm p)
        \<and> deallocate (fst (snd (deallocate mm p))) (snd (snd (deallocate mm p)))
            = (False, fst (snd (deallocate mm p)), snd (snd (deallocate mm p))))"
  by (auto simp: deallocate_def Let_def merge_free_blocks_def AList.delete_conv
      split: option.splits)

theorem deallocate_result_witness:
  "map_of (allocated_blocks mm30) (pid p30) \<noteq> None
   \<and> fst (deallocate mm30 p30)
   \<and> deallocate (fst (snd (deallocate mm30 p30))) (snd (snd (deallocate mm30 p30)))
       = (False, fst (snd (deallocate mm30 p30)), snd (snd (deallocate mm30 p30)))
   \<and> \<not> fst (deallocate (MemoryManager_init 100 ''First-Fit'') p30)
   \<and> snd (deallocate (MemoryManager_init 100 ''First-Fit'') p30)
       = (MemoryManager_init 100 ''First-Fit'', p30)"
proof -
  have a: "map_of (allocated_blocks mm30) (pid p30) \<noteq> None"
    by (simp add: mm30_p30 Process_init_def)
  have b: "\<not> fst (deallocate (MemoryManager_init 100 ''First-Fit'') p30)"
    by (simp add: deallocate_def MemoryManager_init_def)
  from deallocate_result[of mm30 p30] deallocate_result[of "MemoryManager_init 100 ''First-Fit''" p30]
    a b
  show ?thesis by simp
qed

text \<open>
  C5 (fields cleared by deallocate), as the code has it: a successful deallocate clears
  \<open>memory_allocated\<close> and changes no other field of the process; \<open>memory_start\<close> and
  \<open>memory_end\<close> keep the addresses set at allocation.
\<close>

theorem deallocate_process_fields:
  "fst (deallocate mm p) \<Longrightarrow> snd (snd (deallocate mm p)) = p\<lparr>memory_allocated := False\<rparr>"
  by (auto simp: deallocate_def Let_def split: option.splits)

theorem deallocate_process_fields_witness:
  "fst (deallocate mm30 p30)
   \<and> snd (snd (deallocate mm30 p30)) = p30\<lparr>memory_allocated := False\<rparr>"
proof -
  have d: "fst (deallocate mm30 p30)"
    by (simp add: mm30_p30 deallocate_def Let_def Process_init_def)
  from deallocate_process_fields[OF d] d show ?thesis by simp
qed

text \<open>
  C5, the claim as stated fails: after allocating 30 MB at address 0 and deallocating
  successfully, \<open>memory_start\<close> and \<open>memory_end\<close> still hold 0 and 29, not the sentinel
  \<open>-1\<close> of the constructor.
\<close>

theorem deallocate_keeps_addresses:
  "fst (deallocate mm30 p30)
   \<and> memory_start p30 = 0 \<and> memory_end p30 = 29
   \<and> \<not> memory_allocated (snd (snd (deallocate mm30 p30)))
   \<and> memory_start (snd (snd (deallocate mm30 p30))) = 0
   \<and> memory_end (snd (snd (deallocate mm30 p30))) = 29
   \<and> memory_start (Process_init 1 0 5 30 0) = - 1
   \<and> memory_end (Process_init 1 0 5 30 0) = - 1"
  by (simp add: mm30_p30 deallocate_def Let_def Process_init_def)

text \<open>
  C6 (fragmentation). get\_fragmentation never raises and returns the formula of the
  specification, \<open>(total_free - largest_free) / total_free * 100\<close> over the free blocks,
  and 0 when there is no free block or the free total is 0; it is 0 whenever at most one
  block is free; and in every state reached from the initial one (positive
  \<open>total_memory\<close>, positive requests) the result lies in \<open>[0, 100]\<close>.
\<close>

theorem get_fragmentation_spec:
  "get_fragmentation mm = Inr (fragmentation_spec mm)
   \<and> (length (filter (\<lambda>b. \<not> allocated b) (memory_blocks mm)) \<le> 1
        \<longrightarrow> get_fragmentation mm = Inr 0)
   \<and> (0 < tm \<and> list_all valid_op ops \<longrightarrow>
        (\<exists>r. get_fragmentation (run_ops (MemoryManager_init tm strat) ops) = Inr r
              \<and> 0 \<le> r \<and> r \<le> 100))"
proof -
  have a: "get_fragmentation mm = Inr (fragmentation_spec mm)"
    by (rule get_fragmentation_eq)
  have b: "get_fragmentation mm = Inr 0"
    if "length (filter (\<lambda>b. \<not> allocated b) (memory_blocks mm)) \<le> 1"
    using that by (simp add: get_fragmentation_eq fragmentation_spec_def frag_formula_single)
  have c: "\<exists>r. get_fragmentation (run_ops (MemoryManager_init tm strat) ops) = Inr r
              \<and> 0 \<le> r \<and> r \<le> 100"
    if h: "0 < tm \<and> list_all valid_op ops"
  proof -
    let ?mm = "run_ops (MemoryManager_init tm strat) ops"
    from h wf_reachable[of tm ops strat]
    have "\<forall>b \<in> set (memory_blocks ?mm). 0 < size_b b"
      by (simp add: wf_mm_def wf_blocks_def wf_core_def)
    then have "\<forall>x \<in> set (map size_b (filter (\<lambda>b. \<not> allocated b) (memory_blocks ?mm))). 0 < x"
      by auto
    from frag_formula_range[OF this] show ?thesis
      by (simp add: get_fragmentation_eq fragmentation_spec_def)
  qed
  from a b c show ?thesis by blast
qed

theorem get_fragmentation_spec_witness:
  "length (filter (\<lambda>b. \<not> allocated b) (memory_blocks mm30)) \<le> 1
   \<and> get_fragmentation mm30 = Inr 0
   \<and> (0::int) < 1024 \<and> list_all valid_op ops_example
   \<and> get_fragmentation (run_ops (MemoryManager_init 1024 ''Best-Fit'') ops_example)
       = Inr (15000 / 437)
   \<and> (\<exists>r. get_fragmentation (run_ops (MemoryManager_init 1024 ''Best-Fit'') ops_example) = Inr r
            \<and> 0 \<le> r \<and> r \<le> 100)"
proof -
  have v: "list_all valid_op ops_example"
    by (simp add: ops_example_def Process_init_def)
  have l: "length (filter (\<lambda>b. \<not> allocated b) (memory_blocks mm30)) \<le> 1"
    by (simp add: mm30_p30)
  have z: "(0::int) < 1024" by simp
  from get_fragmentation_spec[of mm30 1024 ops_example "''Best-Fit''"] l
  have a: "get_fragmentation mm30 = Inr 0" by blast
  from get_fragmentation_spec[of mm30 1024 ops_example "''Best-Fit''"] z v
  have b: "\<exists>r. get_fragmentation (run_ops (MemoryManager_init 1024 ''Best-Fit'') ops_example) = Inr r
            \<and> 0 \<le> r \<and> r \<le> 100" by blast
  from l a z v ops_example_frag b show ?thesis by blast
qed

section \<open>Claims about the scheduler\<close>

text \<open>
  C2, the claim as stated fails. Under RR with quantum 2, P1 (arrival 0, burst 4) is
  preempted at time 2 while P2 (arrival 1, burst 2) has arrived during the slice. The code
  adds P1 back before it admits P2, so P1 runs again at time 2: the trace is
  \<open>(1,0,2), (1,2,4), (2,4,6)\<close>, where the claim gives \<open>(1,0,2), (2,2,4), (1,4,6)\<close>.
\<close>

theorem rr_arrivals_after_preempted:
  "map_option (get_gantt_chart \<circ> snd) (schedule (Scheduler_init ''RR'' 2) procs_rr)
     = Some [(1, 0, 2), (1, 2, 4), (2, 4, 6)]"
  by code_simp

text \<open>
  The example of the specification: three processes arriving at 0 with burst 4, quantum 2.
  Each row is \<open>(pid, start, completion, turnaround, waiting, response)\<close>.
\<close>

lemma rr3_metrics:
  "map_option (map metric_row \<circ> fst) (schedule (Scheduler_init ''RR'' 2) procs3)
     = Some [(1, 0, 8, 8, 4, 0), (2, 2, 10, 10, 6, 2), (3, 4, 12, 12, 8, 4)]"
  by code_simp

text \<open>
  C9 (conservation). Whenever schedule returns, under every algorithm and quantum, every
  completed process satisfies \<open>turnaround_time = waiting_time + burst_time\<close> and
  \<open>response_time = start_time - arrival_time\<close>; the processes handed in are as the
  constructor makes them (\<open>start_time = -1\<close>) or already consistent.
\<close>

theorem metrics_conservation:
  assumes "schedule (Scheduler_init alg tq) processes = Some (completed, s1)"
    and "list_all (\<lambda>p. start_time p = - 1 \<or> response_time p = start_time p - arrival_time p)
           processes"
  shows "list_all (\<lambda>p. turnaround_time p = waiting_time p + burst_time p
                        \<and> response_time p = start_time p - arrival_time p) completed"
proof -
  from assms(1) have l: "schedule_loop (sort_key arrival_time processes) 0 (Scheduler_init alg tq) = Some s1"
    and c: "completed = completed_processes s1"
    by (auto simp: schedule_def split: option.splits)
  have f: "list_all fresh_or_ok (sort_key arrival_time processes)"
    using assms(2) by (simp add: list_all_iff fresh_or_ok_def response_ok_def)
  have i: "sched_inv (Scheduler_init alg tq)"
    by (simp add: sched_inv_def Scheduler_init_def)
  from schedule_loop_inv[OF l] f i have "sched_inv s1" by blast
  then show ?thesis
    by (auto simp: sched_inv_def c list_all_iff metrics_ok_def response_ok_def)
qed

theorem metrics_conservation_witness:
  "list_all (\<lambda>p. start_time p = - 1 \<or> response_time p = start_time p - arrival_time p) procs3
   \<and> map_option (map metric_row \<circ> fst) (schedule (Scheduler_init ''RR'' 2) procs3)
       = Some [(1, 0, 8, 8, 4, 0), (2, 2, 10, 10, 6, 2), (3, 4, 12, 12, 8, 4)]
   \<and> (\<exists>completed s1. schedule (Scheduler_init ''RR'' 2) procs3 = Some (completed, s1)
        \<and> list_all (\<lambda>p. turnaround_time p = waiting_time p + burst_time p
                          \<and> response_time p = start_time p - arrival_time p) completed)"
proof -
  have f: "list_all (\<lambda>p. start_time p = - 1 \<or> response_time p = start_time p - arrival_time p) procs3"
    by (simp add: procs3_def Process_init_def)
  from rr3_metrics obtain completed s1 where
    e: "schedule (Scheduler_init ''RR'' 2) procs3 = Some (completed, s1)"
    by (cases "schedule (Scheduler_init ''RR'' 2) procs3") auto
  from metrics_conservation[OF e f] e f rr3_metrics show ?thesis by blast
qed




text \<open>
  C2 (RR re-admission), as the code has it: when the slice of the dispatched process ends
  with remaining time left, the process goes back to the tail of the ready queue at once;
  the processes that arrived up to the new current time are admitted by the next
  iteration, behind it.
\<close>

theorem rr_preempted_readmitted_first:
  assumes "algorithm s = ''RR''" "ready_queue s = Proc p # rest"
    and "time_quantum s < remaining_time p"
  shows "\<exists>p1. pid p1 = pid p \<and> remaining_time p1 = remaining_time p - time_quantum s
           \<and> current_time (dispatch s) = current_time s + time_quantum s
           \<and> ready_queue (dispatch s) = rest @ [Proc p1]
           \<and> ready_queue (snd (admit all_processes idx (dispatch s))) =
               rest @ [Proc p1] @
               map (\<lambda>q. Proc (q\<lparr>state := ''READY''\<rparr>))
                 (takeWhile (\<lambda>q. arrival_time q \<le> current_time s + time_quantum s)
                    (drop idx all_processes))"
proof -
  define s2 where "s2 = s\<lparr>ready_queue := rest\<rparr>"
  have g: "get_next_process s = (Some p, s2)"
    using assms(1,2) by (simp add: get_next_process_def s2_def)
  have r2: "algorithm s2 = ''RR''" "time_quantum s2 = time_quantum s" "ready_queue s2 = rest"
    "current_time s2 = current_time s"
    using assms(1) by (simp_all add: s2_def)
  define e where "e = execute s2 p (time_quantum s)"
  have nc: "\<not> fst e" and rem: "remaining_time (snd (snd e)) = remaining_time p - time_quantum s"
    and pd: "pid (snd (snd e)) = pid p"
    using assms(3) by (auto simp: execute_def Let_def e_def)
  have fe: "algorithm (fst (snd e)) = ''RR''" "ready_queue (fst (snd e)) = rest"
    "current_time (fst (snd e)) = current_time s + time_quantum s"
    using r2 assms(3) by (simp_all add: e_def execute_current_time)
  have d: "dispatch s = add_process (fst (snd e)) (snd (snd e))"
    using g nc r2 by (simp add: dispatch_Some e_def)
  define p1 where "p1 = (snd (snd e))\<lparr>state := ''READY''\<rparr>"
  have dq: "ready_queue (dispatch s) = rest @ [Proc p1]"
    unfolding d p1_def using fe by (simp add: add_process_fifo)
  have dc: "current_time (dispatch s) = current_time s + time_quantum s"
    unfolding d using fe by simp
  have da: "algorithm (dispatch s) = ''RR''"
    unfolding d using fe by simp
  have "ready_queue (snd (admit all_processes idx (dispatch s))) =
               rest @ [Proc p1] @
               map (\<lambda>q. Proc (q\<lparr>state := ''READY''\<rparr>))
                 (takeWhile (\<lambda>q. arrival_time q \<le> current_time s + time_quantum s)
                    (drop idx all_processes))"
    using da by (simp add: admit_fifo dq dc)
  with dq dc rem pd show ?thesis
    by (intro exI[of _ p1]) (simp add: p1_def)
qed

theorem rr_preempted_readmitted_first_witness:
  "algorithm s_rr0 = ''RR''
   \<and> ready_queue s_rr0 = Proc ((Process_init 1 0 4 10 0)\<lparr>state := ''READY''\<rparr>) # []
   \<and> time_quantum s_rr0 < remaining_time ((Process_init 1 0 4 10 0)\<lparr>state := ''READY''\<rparr>)
   \<and> map (pid \<circ> item_process) (ready_queue (snd (admit procs_rr 1 (dispatch s_rr0)))) = [1, 2]"
proof -
  have a: "algorithm s_rr0 = ''RR''"
    and q: "ready_queue s_rr0 = Proc ((Process_init 1 0 4 10 0)\<lparr>state := ''READY''\<rparr>) # []"
    and t: "time_quantum s_rr0 < remaining_time ((Process_init 1 0 4 10 0)\<lparr>state := ''READY''\<rparr>)"
    and c: "current_time s_rr0 = 0" "time_quantum s_rr0 = 2"
    by (simp_all add: s_rr0_def add_process_def Scheduler_init_def Process_init_def)
  from rr_preempted_readmitted_first[OF a q t, of procs_rr 1] a q t c
  show ?thesis
    by (auto simp: procs_rr_def Process_init_def)
qed

text \<open>
  C4 (tie-break), as the code has it. Under SJF and Priority the ready queue is a heap of
  entries \<open>(key, arrival_time, process)\<close> whose key is the remaining time (SJF) or the
  priority (Priority) of the process and whose second component is its arrival time. The
  process dispatched is least among all ready processes: none has a smaller primary key,
  and among those with the same primary key none has an earlier arrival time. Processes
  equal in primary key and arrival time are ordered by \<open>Process.__lt__\<close> (priority), not
  by insertion. Dispatching removes exactly the entry of that process; the queue is such a
  heap at construction and stays one under \<open>add_process\<close>, \<open>get_next_process\<close> and a
  whole iteration of the scheduling loop.
\<close>

theorem heap_dispatch_order:
  assumes alg: "algorithm s = ''SJF'' \<or> algorithm s = ''Priority''"
    and hp: "ready_heap s" and ne: "ready_queue s \<noteq> []"
  shows "(\<exists>p. fst (get_next_process s) = Some p
            \<and> ready_queue s ! 0 = Tup (primary_key (algorithm s) p) (arrival_time p) p
            \<and> list_all (\<lambda>x. dispatch_le (algorithm s) p (item_process x)) (ready_queue s)
            \<and> mset (ready_queue s)
                = add_mset (Tup (primary_key (algorithm s) p) (arrival_time p) p)
                    (mset (ready_queue (snd (get_next_process s)))))
       \<and> ready_heap (snd (get_next_process s))
       \<and> ready_heap (add_process s q)
       \<and> ready_heap (snd (schedule_body all_processes idx s))
       \<and> ready_heap (Scheduler_init alg0 tq0)"
proof -
  from hp have th: "tup_heap (ready_queue s)"
    and ky: "list_all (keyed_entry (algorithm s)) (ready_queue s)"
    by (simp_all add: ready_heap_def)
  from ne have l: "0 < length (ready_queue s)"
    by (simp only: length_greater_0_conv not_False_eq_True)
  have t: "\<And>j. j < length (ready_queue s) \<Longrightarrow> is_tup (ready_queue s ! j)"
    using th by (simp add: tup_heap_def list_all_length)
  have k: "\<And>j. j < length (ready_queue s) \<Longrightarrow> keyed_entry (algorithm s) (ready_queue s ! j)"
    using ky by (simp add: list_all_length)
  let ?x = "ready_queue s ! 0"
  let ?p = "item_process ?x"
  note g = get_next_process_heap[OF alg th ne]
  have x: "?x = Tup (primary_key (algorithm s) ?p) (arrival_time ?p) ?p"
    using keyed_entry_Tup[OF k[OF l]] .
  have "dispatch_le (algorithm s) ?p (item_process (ready_queue s ! j))"
    if "j < length (ready_queue s)" for j
    using heap_root_min[OF th that] le_item_entry_le[OF t[OF l] t[OF that]]
      keyed_entry_le[OF k[OF l] k[OF that]] by simp
  then have m: "list_all (\<lambda>x. dispatch_le (algorithm s) ?p (item_process x)) (ready_queue s)"
    by (simp add: list_all_length)
  have e: "\<exists>p. fst (get_next_process s) = Some p
            \<and> ready_queue s ! 0 = Tup (primary_key (algorithm s) p) (arrival_time p) p
            \<and> list_all (\<lambda>x. dispatch_le (algorithm s) p (item_process x)) (ready_queue s)
            \<and> mset (ready_queue s)
                = add_mset (Tup (primary_key (algorithm s) p) (arrival_time p) p)
                    (mset (ready_queue (snd (get_next_process s))))"
    using g x m by (intro exI[of _ ?p]) (metis)
  have i: "ready_heap (Scheduler_init alg0 tq0)"
    by (simp add: ready_heap_def tup_heap_def heap_ordered_def Scheduler_init_def)
  from e i get_next_process_ready_heap[OF alg hp ne] add_process_ready_heap[OF hp alg, of q]
    schedule_body_ready_heap[OF alg hp, of all_processes idx]
  show ?thesis by blast
qed

lemma s_sjf_eval:
  "algorithm s_sjf = ''SJF''"
  "ready_heap s_sjf"
  "ready_queue s_sjf \<noteq> []"
  "fst (get_next_process s_sjf) = Some ((Process_init 2 1 3 10 0)\<lparr>state := ''READY''\<rparr>)"
  "map (pid \<circ> item_process) (ready_queue s_sjf) = [2, 1, 3]"
  by code_simp+

lemma s_prio_eval:
  "algorithm s_prio = ''Priority''"
  "ready_heap s_prio"
  "ready_queue s_prio \<noteq> []"
  "fst (get_next_process s_prio) = Some ((Process_init 2 1 3 10 1)\<lparr>state := ''READY''\<rparr>)"
  "map (pid \<circ> item_process) (ready_queue s_prio) = [2, 1, 3]"
  by code_simp+

theorem heap_dispatch_order_witness:
  "algorithm s_sjf = ''SJF'' \<and> ready_heap s_sjf \<and> ready_queue s_sjf \<noteq> []
   \<and> map (pid \<circ> item_process) (ready_queue s_sjf) = [2, 1, 3]
   \<and> fst (get_next_process s_sjf) = Some ((Process_init 2 1 3 10 0)\<lparr>state := ''READY''\<rparr>)
   \<and> list_all (\<lambda>x. dispatch_le ''SJF'' ((Process_init 2 1 3 10 0)\<lparr>state := ''READY''\<rparr>)
                   (item_process x)) (ready_queue s_sjf)
   \<and> ready_heap (snd (get_next_process s_sjf))
   \<and> algorithm s_prio = ''Priority'' \<and> ready_heap s_prio \<and> ready_queue s_prio \<noteq> []
   \<and> map (pid \<circ> item_process) (ready_queue s_prio) = [2, 1, 3]
   \<and> fst (get_next_process s_prio) = Some ((Process_init 2 1 3 10 1)\<lparr>state := ''READY''\<rparr>)
   \<and> list_all (\<lambda>x. dispatch_le ''Priority'' ((Process_init 2 1 3 10 1)\<lparr>state := ''READY''\<rparr>)
                   (item_process x)) (ready_queue s_prio)
   \<and> ready_heap (snd (get_next_process s_prio))"
proof -
  have a: "algorithm s_sjf = ''SJF'' \<or> algorithm s_sjf = ''Priority''"
    by (simp add: s_sjf_eval)
  have b: "algorithm s_prio = ''SJF'' \<or> algorithm s_prio = ''Priority''"
    by (simp add: s_prio_eval)
  from heap_dispatch_order[OF a s_sjf_eval(2,3)]
  have 1: "list_all (\<lambda>x. dispatch_le ''SJF'' ((Process_init 2 1 3 10 0)\<lparr>state := ''READY''\<rparr>)
                   (item_process x)) (ready_queue s_sjf)"
    and 2: "ready_heap (snd (get_next_process s_sjf))"
    by (auto simp: s_sjf_eval)
  from heap_dispatch_order[OF b s_prio_eval(2,3)]
  have 3: "list_all (\<lambda>x. dispatch_le ''Priority'' ((Process_init 2 1 3 10 1)\<lparr>state := ''READY''\<rparr>)
                   (item_process x)) (ready_queue s_prio)"
    and 4: "ready_heap (snd (get_next_process s_prio))"
    by (auto simp: s_prio_eval)
  from 1 2 3 4 s_sjf_eval s_prio_eval show ?thesis by blast
qed

text \<open>
  C4, the claim as stated fails. Under SJF, P1 and P2 arrive at 0 with burst 5; P1 is
  inserted first, but P2 has the lower priority value and is dispatched first. Under
  Priority, four processes equal in priority and arrival time, inserted in the order
  1, 2, 3, 4, are dispatched in the order 1, 3, 2, 4.
\<close>

theorem heap_ties_not_by_insertion:
  "map_option (get_gantt_chart \<circ> snd) (schedule (Scheduler_init ''SJF'' 2) procs_tie)
     = Some [(2, 0, 5), (1, 5, 10)]
   \<and> map_option (get_gantt_chart \<circ> snd) (schedule (Scheduler_init ''Priority'' 2) procs_equal)
     = Some [(1, 0, 5), (3, 5, 10), (2, 10, 15), (4, 15, 20)]"
  by code_simp

end
